theory Spec2Isabelle
  imports Complex_Main "HOL-Library.AList"
begin

section \<open>Strings\<close>

text \<open>
  A JavaScript string is modelled as a \<^typ>\<open>string\<close>, one \<^typ>\<open>char\<close> per code unit
  below 256. The three characters that cannot be written inside a string literal get
  a name each.
\<close>

definition squote :: char where "squote = CHR 0x27"
definition dquote :: char where "dquote = CHR 0x22"
definition backslash :: char where "backslash = CHR 0x5C"

text \<open>\<^verbatim>\<open>String.prototype.startsWith\<close> and \<^verbatim>\<open>String.prototype.includes\<close>.\<close>

fun startsWith :: "string \<Rightarrow> string \<Rightarrow> bool" where
  "startsWith s [] = True"
| "startsWith [] (d # ds) = False"
| "startsWith (c # cs) (d # ds) = (c = d \<and> startsWith cs ds)"

fun includes_str :: "string \<Rightarrow> string \<Rightarrow> bool" where
  "includes_str [] sub = (sub = [])"
| "includes_str (c # cs) sub = (startsWith (c # cs) sub \<or> includes_str cs sub)"

text \<open>\<^verbatim>\<open>Array.prototype.join\<close> on an array of strings.\<close>

fun join :: "string \<Rightarrow> string list \<Rightarrow> string" where
  "join sep [] = []"
| "join sep [x] = x"
| "join sep (x # y # ys) = x @ sep @ join sep (y # ys)"

text \<open>
  \<^verbatim>\<open>s.split(sep)\<close> for a separator that is one character out of a class: the pieces
  between the separators, \<^verbatim>\<open>[""]\<close> for the empty string.
\<close>

fun split_on :: "(char \<Rightarrow> bool) \<Rightarrow> string \<Rightarrow> string list" where
  "split_on sep [] = [[]]"
| "split_on sep (c # cs) =
     (if sep c then [] # split_on sep cs
      else (case split_on sep cs of
              [] \<Rightarrow> [[c]]
            | piece # pieces \<Rightarrow> (c # piece) # pieces))"

definition is_upper :: "char \<Rightarrow> bool" where
  "is_upper c = (65 \<le> (of_char c :: nat) \<and> (of_char c :: nat) \<le> 90)"

definition to_lower :: "char \<Rightarrow> char" where
  "to_lower c = (if is_upper c then char_of ((of_char c :: nat) + 32) else c)"

definition toLowerCase :: "string \<Rightarrow> string" where
  "toLowerCase s = map to_lower s"

text \<open>JavaScript white space and line terminators below 256, as \<^verbatim>\<open>trim\<close> removes them.\<close>

definition is_space :: "char \<Rightarrow> bool" where
  "is_space c = ((of_char c :: nat) \<in> {9, 10, 11, 12, 13, 32, 160})"

definition trim :: "string \<Rightarrow> string" where
  "trim s = rev (dropWhile is_space (rev (dropWhile is_space s)))"

definition newline :: char where "newline = CHR 0x0A"
definition carriage_return :: char where "carriage_return = CHR 0x0D"

section \<open>Path validation (\<^verbatim>\<open>ProjectUtils.validatePath\<close>)\<close>

text \<open>
  \<^verbatim>\<open>if (!path || path.includes('..')) return false; return true;\<close>
  The empty string is the only falsy string.
\<close>

definition validatePath :: "string \<Rightarrow> bool" where
  "validatePath path = (if path = [] \<or> includes_str path ''..'' then False else True)"

text \<open>
  The vocabulary of the property: the segments of a path are the pieces between
  separators, forward or backward; a path has a parent-directory segment when one of
  them is \<^verbatim>\<open>..\<close>; it is relative when it does not start with a separator.
\<close>

definition is_separator :: "char \<Rightarrow> bool" where
  "is_separator c = (c = CHR ''/'' \<or> c = backslash)"

definition path_segments :: "string \<Rightarrow> string list" where
  "path_segments p = split_on is_separator p"

definition has_parent_segment :: "string \<Rightarrow> bool" where
  "has_parent_segment p = (''..'' \<in> set (path_segments p))"

definition is_relative :: "string \<Rightarrow> bool" where
  "is_relative p = (case p of [] \<Rightarrow> True | c # cs \<Rightarrow> \<not> is_separator c)"

section \<open>JSON values\<close>

text \<open>
  The dynamically typed parameter payloads are JSON values. An object is the list of
  its own enumerable entries in enumeration order, with distinct keys; an assignment
  \<^verbatim>\<open>result[key] = value\<close> is \<^const>\<open>AList.update\<close>: it replaces the value of a key that
  is present, in place, and appends an absent key. A lookup \<^verbatim>\<open>obj[key]\<close> is a lookup
  among the own entries. Keys that name members of \<^verbatim>\<open>Object.prototype\<close> (which a lookup
  would inherit) and keys that are canonical array indices (which are enumerated first)
  are outside this model of objects. A number is a real: no payload from JSON is a NaN
  or an infinity.
\<close>

datatype json =
    JNull
  | JBool bool
  | JNum real
  | JStr string
  | JArr "json list"
  | JObj "(string \<times> json) list"

type_synonym jobject = "(string \<times> json) list"

definition obj_entries :: "json \<Rightarrow> jobject" where
  "obj_entries v = (case v of JObj entries \<Rightarrow> entries | _ \<Rightarrow> [])"

text \<open>Truthiness of \<^verbatim>\<open>obj[key]\<close>, where \<open>None\<close> is \<^verbatim>\<open>undefined\<close>.\<close>

fun truthy :: "json option \<Rightarrow> bool" where
  "truthy None = False"
| "truthy (Some JNull) = False"
| "truthy (Some (JBool b)) = b"
| "truthy (Some (JNum n)) = (n \<noteq> 0)"
| "truthy (Some (JStr s)) = (s \<noteq> [])"
| "truthy (Some (JArr xs)) = True"
| "truthy (Some (JObj entries)) = True"

text \<open>The measure of the recursions over nested objects.\<close>

definition entries_size :: "jobject \<Rightarrow> nat" where
  "entries_size kvs = size_list (\<lambda>kv. size (snd kv)) kvs"

lemma entries_size_JObj: "entries_size kvs < size (JObj kvs)"
  unfolding entries_size_def
  by (induction kvs) auto

section \<open>Parameter normalizer (\<^verbatim>\<open>types.ts\<close>, \<^verbatim>\<open>OperationExecutor\<close>)\<close>

definition PARAMETER_MAPPINGS :: "(string \<times> string) list" where
  "PARAMETER_MAPPINGS =
    [(''project_path'', ''projectPath''),
     (''scene_path'', ''scenePath''),
     (''root_node_type'', ''rootNodeType''),
     (''parent_node_path'', ''parentNodePath''),
     (''node_type'', ''nodeType''),
     (''node_name'', ''nodeName''),
     (''texture_path'', ''texturePath''),
     (''node_path'', ''nodePath''),
     (''output_path'', ''outputPath''),
     (''mesh_item_names'', ''meshItemNames''),
     (''new_path'', ''newPath''),
     (''file_path'', ''filePath''),
     (''directory'', ''directory''),
     (''recursive'', ''recursive''),
     (''scene'', ''scene'')]"

definition normalizedKey :: "string \<Rightarrow> string" where
  "normalizedKey key =
     (case map_of PARAMETER_MAPPINGS key of
        Some camel \<Rightarrow> if includes_str key ''_'' \<and> camel \<noteq> [] then camel else key
      | None \<Rightarrow> key)"

text \<open>
  The loop \<^verbatim>\<open>for (const key in params)\<close> of \<^verbatim>\<open>normalizeParameters\<close>, with the object
  \<^verbatim>\<open>result\<close> built so far as second argument. A value that is a plain object (not null,
  not an array) is normalized recursively; every other value is passed through.
\<close>

function (sequential) normalize_entries :: "jobject \<Rightarrow> jobject \<Rightarrow> jobject" where
  "normalize_entries [] result = result"
| "normalize_entries ((key, JObj nested) # rest) result =
     normalize_entries rest
       (AList.update (normalizedKey key) (JObj (normalize_entries nested [])) result)"
| "normalize_entries ((key, v) # rest) result =
     normalize_entries rest (AList.update (normalizedKey key) v result)"
  by pat_completeness auto
termination
proof (relation "measure (\<lambda>(kvs, result). entries_size kvs)", goal_cases)
  case 1 show ?case by simp
next
  case (2 key nested rest result)
  show ?case using entries_size_JObj[of nested] by (simp add: entries_size_def)
qed (simp_all add: entries_size_def)

text \<open>
  The indices of an array, as \<^verbatim>\<open>for ... in\<close> enumerates them: decimal strings.
\<close>

definition digit_char :: "nat \<Rightarrow> char" where
  "digit_char d = char_of (48 + d)"

function dec_string :: "nat \<Rightarrow> string" where
  "dec_string n = (if n < 10 then [digit_char n] else dec_string (n div 10) @ [digit_char (n mod 10)])"
  by pat_completeness auto
termination
  by (relation "measure id") auto

definition index_entries :: "json list \<Rightarrow> jobject" where
  "index_entries xs = zip (map dec_string [0..<length xs]) xs"

definition normalizeParameters :: "json \<Rightarrow> json" where
  "normalizeParameters params =
     (case params of
        JObj entries \<Rightarrow> JObj (normalize_entries entries [])
      | JArr xs \<Rightarrow> JObj (normalize_entries (index_entries xs) [])
      | _ \<Rightarrow> params)"

definition normalize_value :: "json \<Rightarrow> json" where
  "normalize_value v = (case v of JObj nested \<Rightarrow> JObj (normalize_entries nested []) | _ \<Rightarrow> v)"

text \<open>
  The constructor of \<^verbatim>\<open>OperationExecutor\<close> builds the reverse table by assignment, one
  entry of \<^verbatim>\<open>PARAMETER_MAPPINGS\<close> after the other.
\<close>

definition reverseParameterMappings :: "(string \<times> string) list" where
  "reverseParameterMappings =
     foldl (\<lambda>acc (snakeCase, camelCase). AList.update camelCase snakeCase acc) []
       PARAMETER_MAPPINGS"

definition camel_fallback :: "string \<Rightarrow> string" where
  "camel_fallback key =
     concat (map (\<lambda>letter. if is_upper letter then [CHR ''_'', to_lower letter] else [letter]) key)"

definition snakeKey :: "string \<Rightarrow> string" where
  "snakeKey key =
     (case map_of reverseParameterMappings key of
        Some snake \<Rightarrow> if snake \<noteq> [] then snake else camel_fallback key
      | None \<Rightarrow> camel_fallback key)"

function (sequential) convert_entries :: "jobject \<Rightarrow> jobject \<Rightarrow> jobject" where
  "convert_entries [] result = result"
| "convert_entries ((key, JObj nested) # rest) result =
     convert_entries rest
       (AList.update (snakeKey key) (JObj (convert_entries nested [])) result)"
| "convert_entries ((key, v) # rest) result =
     convert_entries rest (AList.update (snakeKey key) v result)"
  by pat_completeness auto
termination
proof (relation "measure (\<lambda>(kvs, result). entries_size kvs)", goal_cases)
  case 1 show ?case by simp
next
  case (2 key nested rest result)
  show ?case using entries_size_JObj[of nested] by (simp add: entries_size_def)
qed (simp_all add: entries_size_def)

definition convertCamelToSnakeCase :: "jobject \<Rightarrow> jobject" where
  "convertCamelToSnakeCase params = convert_entries params []"

definition convert_value :: "json \<Rightarrow> json" where
  "convert_value v = (case v of JObj nested \<Rightarrow> JObj (convert_entries nested []) | _ \<Rightarrow> v)"

text \<open>One iteration of either loop, with the renaming of keys and values as parameters.\<close>

definition rename_step ::
  "(string \<Rightarrow> string) \<Rightarrow> (json \<Rightarrow> json) \<Rightarrow> jobject \<Rightarrow> string \<times> json \<Rightarrow> jobject" where
  "rename_step f g acc kv = AList.update (f (fst kv)) (g (snd kv)) acc"

text \<open>
  The vocabulary of the round-trip property: an object all of whose keys, also the
  keys of nested objects, are keys of the table, and distinct.
\<close>

function mapped_entries :: "jobject \<Rightarrow> bool" where
  "mapped_entries [] = True"
| "mapped_entries ((key, v) # rest) =
     (key \<in> set (map fst PARAMETER_MAPPINGS) \<and> key \<notin> set (map fst rest)
      \<and> (case v of JObj nested \<Rightarrow> mapped_entries nested | _ \<Rightarrow> True)
      \<and> mapped_entries rest)"
  by pat_completeness auto
termination
proof (relation "measure entries_size", goal_cases)
  case 1 show ?case by simp
next
  case (2 key v rest nested)
  show ?case using entries_size_JObj[of nested] 2 by (simp add: entries_size_def)
qed (simp_all add: entries_size_def)

section \<open>Command protocol builder (\<^verbatim>\<open>OperationExecutor.executeOperation\<close>)\<close>

text \<open>
  \<^verbatim>\<open>s.replace(/c/g, replacement)\<close> for a single character \<open>c\<close> and a replacement
  without \<^verbatim>\<open>$\<close> patterns.
\<close>

definition replace_all :: "char \<Rightarrow> string \<Rightarrow> string \<Rightarrow> string" where
  "replace_all ch replacement s = concat (map (\<lambda>c. if c = ch then replacement else [c]) s)"

definition escapedParams :: "string \<Rightarrow> string" where
  "escapedParams paramsJson = replace_all squote [squote, backslash, squote] paramsJson"

definition quotedParams :: "bool \<Rightarrow> string \<Rightarrow> string" where
  "quotedParams isWindows paramsJson =
     (if isWindows
      then [backslash, dquote] @ replace_all dquote [backslash, dquote] paramsJson @ [dquote]
      else [squote] @ escapedParams paramsJson @ [squote])"

text \<open>
  The command line of \<^verbatim>\<open>executeOperation\<close>, from the JSON text of the converted parameters
  (\<^verbatim>\<open>JSON.stringify(snakeCaseParams)\<close>). Each path is put between double quotes by a
  template; \<^verbatim>\<open>godotPath\<close> is the value read before any detection, and a null is written
  \<^verbatim>\<open>null\<close> by the template.
\<close>

definition template_path :: "string option \<Rightarrow> string" where
  "template_path p = [dquote] @ (case p of None \<Rightarrow> ''null'' | Some s \<Rightarrow> s) @ [dquote]"

definition executeOperation_command ::
  "bool \<Rightarrow> bool \<Rightarrow> string \<Rightarrow> string option \<Rightarrow> string \<Rightarrow> string \<Rightarrow> string \<Rightarrow> string" where
  "executeOperation_command isWindows godotDebugMode operationsScriptPath godotPath
      projectPath operation paramsJson =
     join '' ''
       ([template_path godotPath, ''--headless'', ''--path'',
         template_path (Some projectPath), ''--script'',
         template_path (Some operationsScriptPath), operation,
         quotedParams isWindows paramsJson]
        @ (if godotDebugMode then [''--debug-godot''] else []))"

text \<open>
  The POSIX shell reading one word, as far as the quoting property needs it: inside
  single quotes every character is literal up to the closing quote; outside, a
  backslash makes the next character literal and a single quote opens a quoted part.
  \<open>None\<close> is a word the shell cannot finish: a quote left open or a trailing backslash.
\<close>

datatype quoting = Unquoted | SingleQuoted

fun posix_word :: "quoting \<Rightarrow> string \<Rightarrow> string option" where
  "posix_word Unquoted [] = Some []"
| "posix_word SingleQuoted [] = None"
| "posix_word SingleQuoted (c # cs) =
     (if c = squote then posix_word Unquoted cs
      else map_option ((#) c) (posix_word SingleQuoted cs))"
| "posix_word Unquoted (c # cs) =
     (if c = squote then posix_word SingleQuoted cs
      else if c = backslash then
        (case cs of [] \<Rightarrow> None | d # ds \<Rightarrow> map_option ((#) d) (posix_word Unquoted ds))
      else map_option ((#) c) (posix_word Unquoted cs))"

section \<open>Path resolver (\<^verbatim>\<open>GodotPathManager.isValidGodotPath\<close>)\<close>

record GodotPathManager =
  validatedPaths :: "string \<rightharpoonup> bool"
  godotPath :: "string option"
  strictPathValidation :: bool

text \<open>
  The ground truth at the time of a call: which files exist and which command lines
  run without error. The third component of the result lists the calls of
  \<^verbatim>\<open>existsSync\<close> and \<^verbatim>\<open>execAsync\<close> the call has made, in order.
\<close>

record machine =
  file_exists :: "string \<Rightarrow> bool"
  command_succeeds :: "string \<Rightarrow> bool"

datatype probe = ExistsSync string | ExecAsync string

fun is_exists_probe :: "probe \<Rightarrow> bool" where
  "is_exists_probe (ExistsSync p) = True"
| "is_exists_probe (ExecAsync c) = False"

fun is_exec_probe :: "probe \<Rightarrow> bool" where
  "is_exec_probe (ExistsSync p) = False"
| "is_exec_probe (ExecAsync c) = True"

definition version_command :: "string \<Rightarrow> string" where
  "version_command path =
     (if path = ''godot'' then ''godot --version''
      else [dquote] @ path @ [dquote] @ '' --version'')"

definition isValidGodotPath ::
  "machine \<Rightarrow> GodotPathManager \<Rightarrow> string \<Rightarrow> bool \<times> GodotPathManager \<times> probe list" where
  "isValidGodotPath w m path =
     (case validatedPaths m path of
        Some cached \<Rightarrow> (cached, m, [])
      | None \<Rightarrow>
          if path \<noteq> ''godot'' \<and> \<not> file_exists w path then
            (False, m\<lparr>validatedPaths := (validatedPaths m)(path \<mapsto> False)\<rparr>,
             [ExistsSync path])
          else
            let probes = (if path \<noteq> ''godot'' then [ExistsSync path] else [])
                           @ [ExecAsync (version_command path)]
            in if command_succeeds w (version_command path) then
                 (True, m\<lparr>validatedPaths := (validatedPaths m)(path \<mapsto> True)\<rparr>, probes)
               else
                 (False, m\<lparr>validatedPaths := (validatedPaths m)(path \<mapsto> False)\<rparr>, probes))"

section \<open>JSON extraction (\<^verbatim>\<open>ToolHandlers.extractJsonFromOutput\<close>)\<close>

text \<open>
  \<^verbatim>\<open>text.split(/\r?\n/)\<close>: a line feed separates, together with the carriage return before
  it if there is one.
\<close>

function split_lines :: "string \<Rightarrow> string list" where
  "split_lines [] = [[]]"
| "split_lines (c # cs) =
     (if c = newline then [] # split_lines cs
      else if c = carriage_return \<and> cs \<noteq> [] \<and> hd cs = newline then [] # split_lines (tl cs)
      else (case split_lines cs of
              [] \<Rightarrow> [[c]]
            | line # lines \<Rightarrow> (c # line) # lines))"
  by pat_completeness auto
termination
  by (relation "measure length") auto

datatype extract_error = NoJsonContent | UnableToParseJson

definition nonempty_lines :: "string \<Rightarrow> string list" where
  "nonempty_lines trimmed = filter (\<lambda>line. length line > 0) (map trim (split_lines trimmed))"

text \<open>
  The loop \<^verbatim>\<open>for (index = lines.length - 1; index >= 0; index -= 1)\<close>; the last argument
  is \<^verbatim>\<open>index + 1\<close>, the number of lines not tried yet. \<open>parse\<close> is \<^verbatim>\<open>JSON.parse\<close>,
  \<open>None\<close> where it throws.
\<close>

primrec scan_lines :: "(string \<Rightarrow> json option) \<Rightarrow> string list \<Rightarrow> nat \<Rightarrow> extract_error + json" where
  "scan_lines parse lines 0 = Inl UnableToParseJson"
| "scan_lines parse lines (Suc index) =
     (case parse (lines ! index) of
        Some v \<Rightarrow> Inr v
      | None \<Rightarrow> scan_lines parse lines index)"

definition extractJsonFromOutput :: "(string \<Rightarrow> json option) \<Rightarrow> string \<Rightarrow> extract_error + json" where
  "extractJsonFromOutput parse output =
     (let trimmed = trim output
      in if trimmed = [] then Inl NoJsonContent
         else let lines = nonempty_lines trimmed
              in scan_lines parse lines (length lines))"

section \<open>Dispatch framework (\<^verbatim>\<open>ToolHandlers\<close>)\<close>

text \<open>
  A tool response: the texts of its \<^verbatim>\<open>content\<close> items and the \<^verbatim>\<open>isError\<close> flag (absent,
  hence falsy, on success).
\<close>

record response =
  content :: "string list"
  isError :: bool

definition createErrorResponse :: "string \<Rightarrow> string list \<Rightarrow> response" where
  "createErrorResponse message possibleSolutions =
     \<lparr>content = [message] @
        (if length possibleSolutions > 0
         then [''Possible solutions:'' @ [newline] @ ''- '' @
               join ([newline] @ ''- '') possibleSolutions]
         else []),
      isError = True\<rparr>"

definition text_response :: "string list \<Rightarrow> response" where
  "text_response texts = \<lparr>content = texts, isError = False\<rparr>"

record OperationToolOptions =
  expectsJson :: bool
  successMessage :: "string option"

text \<open>
  What a handler takes from outside the process: the file system, \<^verbatim>\<open>path.join\<close>, the
  message of each error of the runtime, the \<^verbatim>\<open>JSON\<close> object (\<^verbatim>\<open>stringify\<close> with an
  indentation of 2), and the outcome of
  \<^verbatim>\<open>operationExecutor.executeOperation(operation, params, projectPath, pathManager)\<close>,
  which either resolves to the captured \<^verbatim>\<open>stdout\<close> and \<^verbatim>\<open>stderr\<close> or rejects with an
  error (its \<^verbatim>\<open>message\<close>, empty when there is none).
\<close>

datatype exec_outcome = Resolved string string | Rejected string

text \<open>
  The errors the runtime throws where a value that is not a string reaches an operation
  on strings: \<^verbatim>\<open>path.join\<close> on such an argument, \<^verbatim>\<open>path.includes\<close> on a value without
  that method, \<^verbatim>\<open>spawn\<close> on a file that is null.
\<close>

datatype js_error = JoinNotString json | IncludesNotFunction json | SpawnFileNotString

record host =
  existsSync :: "string \<Rightarrow> bool"
  path_join :: "string \<Rightarrow> string \<Rightarrow> string"
  message_of :: "js_error \<Rightarrow> string"
  JSON_parse :: "string \<Rightarrow> json option"
  JSON_stringify :: "json \<Rightarrow> string"
  executeOperation :: "string \<Rightarrow> jobject \<Rightarrow> json option \<Rightarrow> exec_outcome"

text \<open>
  \<^verbatim>\<open>ProjectUtils.isValidGodotProject\<close>: \<open>Inl\<close> is the error thrown when the path is not
  a string.
\<close>

definition isValidGodotProject :: "host \<Rightarrow> json \<Rightarrow> js_error + bool" where
  "isValidGodotProject h projectPath =
     (case projectPath of
        JStr p \<Rightarrow> Inr (existsSync h (path_join h p ''project.godot''))
      | other \<Rightarrow> Inl (JoinNotString other))"

definition error_message :: "string \<Rightarrow> string" where
  "error_message message = (if message \<noteq> [] then message else ''Unknown error'')"

text \<open>The part of \<^verbatim>\<open>handleOperationTool\<close> after \<^verbatim>\<open>executeOperation\<close> has resolved.\<close>

definition operation_response ::
  "host \<Rightarrow> string \<Rightarrow> OperationToolOptions \<Rightarrow> string \<Rightarrow> string \<Rightarrow> response" where
  "operation_response h toolName options stdout stderr =
     (if stderr \<noteq> [] \<and> includes_str stderr ''Failed to'' then
        createErrorResponse (''Failed to '' @ toolName @ '': '' @ stderr)
          [''Check the operation parameters'', ''Verify file paths are correct'',
           ''Ensure proper permissions'']
      else if expectsJson options then
        (case extractJsonFromOutput (JSON_parse h) stdout of
           Inr json \<Rightarrow>
             text_response
               [(case successMessage options of
                   Some message \<Rightarrow>
                     if message \<noteq> [] then message
                     else toolName @ '' completed successfully.''
                 | None \<Rightarrow> toolName @ '' completed successfully.''),
                JSON_stringify h json]
         | Inl error \<Rightarrow>
             createErrorResponse (''Failed to '' @ toolName @ '': Unable to parse JSON output'')
               [''Run with DEBUG=true for verbose logging'',
                ''Verify the requested resource exists and is readable''])
      else
        text_response
          [toolName @ '' completed successfully.'' @ [newline, newline] @ ''Output: '' @ stdout])"

definition failure_response :: "string \<Rightarrow> string \<Rightarrow> response" where
  "failure_response toolName message =
     createErrorResponse (''Failed to '' @ toolName @ '': '' @ error_message message)
       [''Ensure Godot is installed correctly'',
        ''Check if the GODOT_PATH environment variable is set correctly'',
        ''Verify the project path is accessible'']"

text \<open>
  \<^verbatim>\<open>handleOperationTool\<close>. The second component of the result lists the calls of
  \<^verbatim>\<open>executeOperation\<close> the dispatch has made, each with its operation, its parameter map
  and its project path (\<open>None\<close> is \<^verbatim>\<open>undefined\<close>); every subprocess of the dispatch is
  started inside such a call.
\<close>

type_synonym exec_call = "string \<times> jobject \<times> json option"

definition handleOperationTool ::
  "host \<Rightarrow> string \<Rightarrow> string \<Rightarrow> jobject \<Rightarrow> string list \<Rightarrow> OperationToolOptions
     \<Rightarrow> response \<times> exec_call list" where
  "handleOperationTool h toolName operation rawArgs requiredParams options =
     (let args = obj_entries (normalizeParameters (JObj rawArgs));
          missingParams = filter (\<lambda>param. \<not> truthy (map_of args param)) requiredParams
      in if length missingParams > 0 then
           (createErrorResponse
              (''Missing required parameters: '' @ join '', '' missingParams)
              [''Provide '' @ join '', '' missingParams], [])
         else
           let pathParams =
                 filter (\<lambda>param. includes_str (toLowerCase param) ''path'') (map fst args);
               invalidPaths =
                 filter (\<lambda>param. case map_of args param of
                                     Some (JStr v) \<Rightarrow> \<not> validatePath v
                                   | _ \<Rightarrow> False) pathParams
           in if length invalidPaths > 0 then
                (createErrorResponse ''Invalid path''
                   [''Provide valid paths without '' @ [dquote] @ ''..'' @ [dquote]
                      @ '' or other potentially unsafe characters''], [])
              else
                let projectPath = map_of args ''projectPath'';
                    validity = (case projectPath of
                                  Some path \<Rightarrow>
                                    if truthy (Some path) then isValidGodotProject h path
                                    else Inr True
                                | None \<Rightarrow> Inr True)
                in case validity of
                     Inl error \<Rightarrow> (failure_response toolName (message_of h error), [])
                   | Inr False \<Rightarrow>
                       (createErrorResponse
                          (''Not a valid Godot project: ''
                             @ (case projectPath of Some (JStr p) \<Rightarrow> p | _ \<Rightarrow> []))
                          [''Ensure the path points to a directory containing a project.godot file'',
                           ''Use list_projects to find valid Godot projects''], [])
                   | Inr True \<Rightarrow>
                       let params = filter (\<lambda>entry. fst entry \<noteq> ''projectPath'') args
                       in (case executeOperation h operation params projectPath of
                             Rejected message \<Rightarrow> failure_response toolName message
                           | Resolved stdout stderr \<Rightarrow>
                               operation_response h toolName options stdout stderr,
                           [(operation, params, projectPath)]))"

text \<open>
  The vocabulary of the properties of the dispatch: the map a handler works on, and the
  names it reports as missing.
\<close>

definition normalized_args :: "jobject \<Rightarrow> jobject" where
  "normalized_args rawArgs = obj_entries (normalizeParameters (JObj rawArgs))"

definition missing_parameters :: "jobject \<Rightarrow> string list \<Rightarrow> string list" where
  "missing_parameters args requiredParams =
     filter (\<lambda>param. \<not> truthy (map_of args param)) requiredParams"

text \<open>A host and options for the examples.\<close>

definition example_host :: host where
  "example_host =
     \<lparr>existsSync = (\<lambda>p. p = ''/games/demo/project.godot''),
      path_join = (\<lambda>a b. a @ ''/'' @ b),
      message_of = (\<lambda>e. ''TypeError''),
      JSON_parse = (\<lambda>s. if s = ''[1]'' then Some (JArr [JNum 1]) else None),
      JSON_stringify = (\<lambda>v. ''[1]''),
      executeOperation = (\<lambda>operation params projectPath. Resolved ''done'' [])\<rparr>"

definition example_options :: OperationToolOptions where
  "example_options = \<lparr>expectsJson = False, successMessage = None\<rparr>"

section \<open>Process orchestrator (\<^verbatim>\<open>handleRunProject\<close> and the supervised process)\<close>

text \<open>
  Every child process that \<^verbatim>\<open>handleRunProject\<close> has spawned, in the order of spawning; a
  handle is the position in this list. Each child has the two arrays \<^verbatim>\<open>output\<close> and
  \<^verbatim>\<open>errors\<close> that its \<^verbatim>\<open>data\<close> listeners append to and that its \<^verbatim>\<open>GodotProcess\<close> record
  shares (here \<open>stdout_lines\<close> and \<open>stderr_lines\<close>), the arguments it was spawned with,
  and three flags: \<^verbatim>\<open>kill()\<close> has been called on the handle, its \<^verbatim>\<open>exit\<close> event has been
  delivered, its \<^verbatim>\<open>error\<close> event has been delivered. \<^verbatim>\<open>activeProcess\<close> is the one slot of
  \<^verbatim>\<open>ToolHandlers\<close>: the handle of the tracked \<^verbatim>\<open>GodotProcess\<close>, or null.
\<close>

record child =
  spawn_args :: "json list"
  stdout_lines :: "string list"
  stderr_lines :: "string list"
  killed :: bool
  exited :: bool
  failed :: bool

record tool_handlers =
  children :: "child list"
  activeProcess :: "nat option"

definition initial_handlers :: tool_handlers where
  "initial_handlers = \<lparr>children = [], activeProcess = None\<rparr>"

text \<open>
  \<^verbatim>\<open>validatePath\<close> on a value that need not be a string, as \<^verbatim>\<open>handleRunProject\<close> calls
  it: a falsy value is rejected, an array answers \<^verbatim>\<open>includes\<close> by membership, and on any
  other value \<^verbatim>\<open>path.includes\<close> is not a function, which throws (\<open>None\<close>).
\<close>

definition validatePath_value :: "json \<Rightarrow> bool option" where
  "validatePath_value path =
     (if \<not> truthy (Some path) then Some False
      else case path of
             JStr p \<Rightarrow> Some (validatePath p)
           | JArr xs \<Rightarrow> Some (JStr ''..'' \<notin> set xs)
           | _ \<Rightarrow> None)"

definition kill_existing :: "tool_handlers \<Rightarrow> tool_handlers" where
  "kill_existing s =
     (case activeProcess s of
        Some p \<Rightarrow> s\<lparr>children := (children s)[p := (children s ! p)\<lparr>killed := True\<rparr>]\<rparr>
      | None \<Rightarrow> s)"

definition spawn_child :: "json list \<Rightarrow> tool_handlers \<Rightarrow> tool_handlers" where
  "spawn_child cmdArgs s =
     s\<lparr>children := children s @
          [\<lparr>spawn_args = cmdArgs, stdout_lines = [], stderr_lines = [],
            killed = False, exited = False, failed = False\<rparr>]\<rparr>"

definition record_active :: "nat \<Rightarrow> tool_handlers \<Rightarrow> tool_handlers" where
  "record_active p s = s\<lparr>activeProcess := Some p\<rparr>"

definition started_response :: response where
  "started_response =
     text_response [''Godot project started in debug mode. Use get_debug_output to see output.'']"

text \<open>\<^verbatim>\<open>if (args.scene && ProjectUtils.validatePath(args.scene)) cmdArgs.push(args.scene)\<close>\<close>

definition scene_argument :: "json option \<Rightarrow> js_error + json list" where
  "scene_argument scene =
     (case scene of
        None \<Rightarrow> Inr []
      | Some sc \<Rightarrow>
          (case validatePath_value sc of
             None \<Rightarrow> Inl (IncludesNotFunction sc)
           | Some valid \<Rightarrow> Inr (if valid then [sc] else [])))"

text \<open>
  The \<^verbatim>\<open>try\<close> block of \<^verbatim>\<open>handleRunProject\<close>; \<open>Inl\<close> is an error thrown inside it. The engine
  path is \<^verbatim>\<open>pathManager.getPath()\<close>. The handle of the new child is the length of the
  list before the spawn. A process that cannot be started reports it later, by its
  \<^verbatim>\<open>error\<close> event.
\<close>

definition run_project_try ::
  "host \<Rightarrow> string option \<Rightarrow> tool_handlers \<Rightarrow> jobject \<Rightarrow> json
     \<Rightarrow> (js_error + response) \<times> tool_handlers" where
  "run_project_try h enginePath s args path =
     (case isValidGodotProject h path of
        Inl error \<Rightarrow> (Inl error, s)
      | Inr False \<Rightarrow>
          (Inr (createErrorResponse
             (''Not a valid Godot project: '' @ (case path of JStr p \<Rightarrow> p | _ \<Rightarrow> []))
             [''Ensure the path points to a directory containing a project.godot file'',
              ''Use list_projects to find valid Godot projects'']), s)
      | Inr True \<Rightarrow>
          (let s1 = kill_existing s
           in (case scene_argument (map_of args ''scene'') of
                 Inl error \<Rightarrow> (Inl error, s1)
               | Inr pushed \<Rightarrow>
                   (case enginePath of
                      None \<Rightarrow> (Inl SpawnFileNotString, s1)
                    | Some engine \<Rightarrow>
                        (Inr started_response,
                         record_active (length (children s1))
                           (spawn_child ([JStr ''-d'', JStr ''--path'', path] @ pushed) s1))))))"

text \<open>
  \<^verbatim>\<open>handleRunProject\<close>. A result \<open>Inl\<close> is a call that rejects, with the error thrown
  outside the \<^verbatim>\<open>try\<close> block.
\<close>

definition handleRunProject ::
  "host \<Rightarrow> string option \<Rightarrow> tool_handlers \<Rightarrow> jobject
     \<Rightarrow> (js_error + response) \<times> tool_handlers" where
  "handleRunProject h enginePath s rawArgs =
     (let args = obj_entries (normalizeParameters (JObj rawArgs));
          projectPath = map_of args ''projectPath''
      in if \<not> truthy projectPath then
           (Inr (createErrorResponse ''Project path is required''
              [''Provide a valid path to a Godot project directory'']), s)
         else
           case projectPath of
             None \<Rightarrow> (Inr (createErrorResponse ''Project path is required''
                         [''Provide a valid path to a Godot project directory'']), s)
           | Some path \<Rightarrow>
               (case validatePath_value path of
                  None \<Rightarrow> (Inl (IncludesNotFunction path), s)
                | Some False \<Rightarrow>
                    (Inr (createErrorResponse ''Invalid project path''
                       [''Provide a valid path without '' @ [dquote] @ ''..'' @ [dquote]
                          @ '' or other potentially unsafe characters'']), s)
                | Some True \<Rightarrow>
                    (case run_project_try h enginePath s args path of
                       (Inl error, s') \<Rightarrow>
                         (Inr (createErrorResponse
                            (''Failed to run Godot project: '' @ message_of h error)
                            [''Ensure Godot is installed correctly'',
                             ''Check if the GODOT_PATH environment variable is set correctly'',
                             ''Verify the project path is accessible'']), s')
                     | (Inr response, s') \<Rightarrow> (Inr response, s'))))"

text \<open>The listeners that \<^verbatim>\<open>handleRunProject\<close> attaches to the child with handle \<open>p\<close>.\<close>

definition on_stdout :: "nat \<Rightarrow> string \<Rightarrow> tool_handlers \<Rightarrow> tool_handlers" where
  "on_stdout p data s =
     (if p < length (children s) then
        s\<lparr>children := (children s)
             [p := (children s ! p)
                \<lparr>stdout_lines := stdout_lines (children s ! p)
                   @ split_on (\<lambda>c. c = newline) data\<rparr>]\<rparr>
      else s)"

definition on_stderr :: "nat \<Rightarrow> string \<Rightarrow> tool_handlers \<Rightarrow> tool_handlers" where
  "on_stderr p data s =
     (if p < length (children s) then
        s\<lparr>children := (children s)
             [p := (children s ! p)
                \<lparr>stderr_lines := stderr_lines (children s ! p)
                   @ split_on (\<lambda>c. c = newline) data\<rparr>]\<rparr>
      else s)"

definition release :: "nat \<Rightarrow> tool_handlers \<Rightarrow> tool_handlers" where
  "release p s = (if activeProcess s = Some p then s\<lparr>activeProcess := None\<rparr> else s)"

definition on_exit :: "nat \<Rightarrow> tool_handlers \<Rightarrow> tool_handlers" where
  "on_exit p s =
     (if p < length (children s) then
        release p (s\<lparr>children := (children s)[p := (children s ! p)\<lparr>exited := True\<rparr>]\<rparr>)
      else s)"

definition on_error :: "nat \<Rightarrow> tool_handlers \<Rightarrow> tool_handlers" where
  "on_error p s =
     (if p < length (children s) then
        release p (s\<lparr>children := (children s)[p := (children s ! p)\<lparr>failed := True\<rparr>]\<rparr>)
      else s)"

definition no_active_process :: response where
  "no_active_process =
     createErrorResponse ''No active Godot process.''
       [''Use run_project to start a Godot project first'',
        ''Check if the Godot process crashed unexpectedly'']"

definition debug_output :: "host \<Rightarrow> string list \<Rightarrow> string list \<Rightarrow> response" where
  "debug_output h out err =
     text_response
       [JSON_stringify h
          (JObj [(''output'', JArr (map JStr out)), (''errors'', JArr (map JStr err))])]"

definition handleGetDebugOutput :: "host \<Rightarrow> tool_handlers \<Rightarrow> response" where
  "handleGetDebugOutput h s =
     (case activeProcess s of
        None \<Rightarrow> no_active_process
      | Some p \<Rightarrow> debug_output h (stdout_lines (children s ! p)) (stderr_lines (children s ! p)))"

definition handleStopProject :: "host \<Rightarrow> tool_handlers \<Rightarrow> response \<times> tool_handlers" where
  "handleStopProject h s =
     (case activeProcess s of
        None \<Rightarrow>
          (createErrorResponse ''No active Godot process to stop.''
             [''Use run_project to start a Godot project first'',
              ''The process may have already terminated''], s)
      | Some p \<Rightarrow>
          (text_response
             [JSON_stringify h
                (JObj [(''message'', JStr ''Godot project stopped''),
                       (''finalOutput'', JArr (map JStr (stdout_lines (children s ! p)))),
                       (''finalErrors'', JArr (map JStr (stderr_lines (children s ! p))))])],
           (kill_existing s)\<lparr>activeProcess := None\<rparr>))"

definition cleanup :: "tool_handlers \<Rightarrow> tool_handlers" where
  "cleanup s = (kill_existing s)\<lparr>activeProcess := None\<rparr>"

text \<open>What can happen to the handlers, one event at a time.\<close>

datatype event =
    RunProject "string option" jobject
  | StdoutData nat string
  | StderrData nat string
  | ExitEvent nat
  | ErrorEvent nat
  | StopProject
  | Cleanup

fun step :: "host \<Rightarrow> tool_handlers \<Rightarrow> event \<Rightarrow> tool_handlers" where
  "step h s (RunProject enginePath rawArgs) = snd (handleRunProject h enginePath s rawArgs)"
| "step h s (StdoutData p data) = on_stdout p data s"
| "step h s (StderrData p data) = on_stderr p data s"
| "step h s (ExitEvent p) = on_exit p s"
| "step h s (ErrorEvent p) = on_error p s"
| "step h s StopProject = snd (handleStopProject h s)"
| "step h s Cleanup = cleanup s"

definition run_events :: "host \<Rightarrow> tool_handlers \<Rightarrow> event list \<Rightarrow> tool_handlers" where
  "run_events h s evs = foldl (step h) s evs"

text \<open>
  The vocabulary of the properties. An event of the child processes alone: no call of
  a handler. The lines that the \<^verbatim>\<open>data\<close> events of one child carry, in order. Whether
  the child reports its end.
\<close>

fun child_event :: "event \<Rightarrow> bool" where
  "child_event (StdoutData p data) = True"
| "child_event (StderrData p data) = True"
| "child_event (ExitEvent p) = True"
| "child_event (ErrorEvent p) = True"
| "child_event e = False"

fun stdout_of :: "nat \<Rightarrow> event \<Rightarrow> string list" where
  "stdout_of p (StdoutData q data) = (if q = p then split_on (\<lambda>c. c = newline) data else [])"
| "stdout_of p e = []"

fun stderr_of :: "nat \<Rightarrow> event \<Rightarrow> string list" where
  "stderr_of p (StderrData q data) = (if q = p then split_on (\<lambda>c. c = newline) data else [])"
| "stderr_of p e = []"

fun ends :: "nat \<Rightarrow> event \<Rightarrow> bool" where
  "ends p (ExitEvent q) = (q = p)"
| "ends p (ErrorEvent q) = (q = p)"
| "ends p e = False"

definition untracked_are_over :: "tool_handlers \<Rightarrow> bool" where
  "untracked_are_over s =
     ((\<forall>p < length (children s).
         activeProcess s \<noteq> Some p \<longrightarrow>
           killed (children s ! p) \<or> exited (children s ! p) \<or> failed (children s ! p))
      \<and> (\<forall>p. activeProcess s = Some p \<longrightarrow> p < length (children s)))"

section \<open>Properties of path validation\<close>

lemma split_on_nonempty: "split_on sep s \<noteq> []"
  by (induction s) (auto split: list.splits)

lemma includes_dotdot_Cons:
  "includes_str (c # cs) ''..'' =
     ((c = CHR ''.'' \<and> (\<exists>t. cs = CHR ''.'' # t)) \<or> includes_str cs ''..'')"
  by (cases cs) auto

lemma includes_dotdot_segments:
  "includes_str p ''..'' \<longleftrightarrow> (\<exists>seg \<in> set (path_segments p). includes_str seg ''..'')"
  unfolding path_segments_def
proof (induction p)
  case Nil
  then show ?case by simp
next
  case (Cons c cs)
  obtain s ss where ps: "split_on is_separator cs = s # ss"
    using split_on_nonempty[of is_separator cs]
    by (cases "split_on is_separator cs") auto
  have dot_sep: "\<not> is_separator (CHR ''.'')"
    by (simp add: is_separator_def backslash_def)
  have hd_dot: "(\<exists>t. cs = CHR ''.'' # t) \<longleftrightarrow> (\<exists>t. s = CHR ''.'' # t)"
    using ps dot_sep by (cases cs) (auto split: list.splits if_splits)
  show ?case
  proof (cases "is_separator c")
    case True
    then have "c \<noteq> CHR ''.''" using dot_sep by auto
    with True Cons show ?thesis
      by (simp add: includes_dotdot_Cons del: includes_str.simps(2))
  next
    case False
    with Cons ps hd_dot show ?thesis
      by (auto simp add: includes_dotdot_Cons simp del: includes_str.simps(2))
  qed
qed

text \<open>
  C2, as stated, at a concrete input: \<^verbatim>\<open>a..b\<close> is a non-empty relative path none of
  whose segments is \<^verbatim>\<open>..\<close>, and \<^verbatim>\<open>validatePath\<close> returns false on it, because the
  check is on the two-character substring and not on segments.
\<close>

theorem validatePath_segment_counterexample:
  "''a..b'' \<noteq> [] \<and> is_relative ''a..b'' \<and> \<not> has_parent_segment ''a..b''
   \<and> \<not> validatePath ''a..b''"
  by (simp add: validatePath_def has_parent_segment_def path_segments_def
      is_relative_def is_separator_def backslash_def)

text \<open>
  C2, amended: every path with a parent-directory segment, with forward or backward
  separators, is rejected; and \<^verbatim>\<open>validatePath\<close> returns true exactly on the non-empty
  strings none of whose segments contains two adjacent dots.
\<close>

theorem validatePath_dotdot:
  "(has_parent_segment p \<longrightarrow> \<not> validatePath p) \<and>
   (validatePath p \<longleftrightarrow>
      p \<noteq> [] \<and> (\<forall>seg \<in> set (path_segments p). \<not> includes_str seg ''..''))"
proof -
  have "includes_str ''..'' ''..''" by simp
  then have "has_parent_segment p \<Longrightarrow> includes_str p ''..''"
    unfolding has_parent_segment_def includes_dotdot_segments[of p] by blast
  then show ?thesis
    using includes_dotdot_segments[of p] by (auto simp: validatePath_def)
qed

theorem validatePath_dotdot_witness:
  "has_parent_segment [CHR ''a'', backslash, CHR ''.'', CHR ''.'', CHR ''/'', CHR ''b'']
   \<and> \<not> validatePath [CHR ''a'', backslash, CHR ''.'', CHR ''.'', CHR ''/'', CHR ''b'']
   \<and> validatePath ''projects/sample''"
proof -
  have seg: "has_parent_segment
      [CHR ''a'', backslash, CHR ''.'', CHR ''.'', CHR ''/'', CHR ''b'']"
    by (simp add: has_parent_segment_def path_segments_def is_separator_def backslash_def)
  have ok: "''projects/sample'' \<noteq> [] \<and>
      (\<forall>seg \<in> set (path_segments ''projects/sample''). \<not> includes_str seg ''..'')"
    by (simp add: path_segments_def is_separator_def backslash_def)
  show ?thesis
    using seg ok
      validatePath_dotdot[of "[CHR ''a'', backslash, CHR ''.'', CHR ''.'', CHR ''/'', CHR ''b'']"]
      validatePath_dotdot[of "''projects/sample''"]
    by blast
qed

section \<open>Properties of the parameter normalizer\<close>

lemma normalize_entries_foldl:
  "normalize_entries kvs acc = foldl (rename_step normalizedKey normalize_value) acc kvs"
proof (induction kvs arbitrary: acc)
  case Nil
  then show ?case by simp
next
  case (Cons kv kvs)
  obtain k v where kv: "kv = (k, v)" by (cases kv)
  show ?case unfolding kv using Cons
    by (cases v) (simp_all add: rename_step_def normalize_value_def)
qed

lemma convert_entries_foldl:
  "convert_entries kvs acc = foldl (rename_step snakeKey convert_value) acc kvs"
proof (induction kvs arbitrary: acc)
  case Nil
  then show ?case by simp
next
  case (Cons kv kvs)
  obtain k v where kv: "kv = (k, v)" by (cases kv)
  show ?case unfolding kv using Cons
    by (cases v) (simp_all add: rename_step_def convert_value_def)
qed

lemma update_fresh: "k \<notin> fst ` set al \<Longrightarrow> AList.update k v al = al @ [(k, v)]"
  by (induction al) auto

lemma rename_foldl_keys:
  "fst ` set (foldl (rename_step f g) acc kvs) = fst ` set acc \<union> f ` fst ` set kvs"
  by (induction kvs arbitrary: acc) (auto simp: rename_step_def dom_update)

lemma rename_foldl_distinct:
  "distinct (map fst acc) \<Longrightarrow> distinct (map fst (foldl (rename_step f g) acc kvs))"
  by (induction kvs arbitrary: acc) (auto simp: rename_step_def distinct_update)

lemma rename_foldl_other:
  "c \<notin> f ` fst ` set kvs \<Longrightarrow> map_of (foldl (rename_step f g) acc kvs) c = map_of acc c"
  by (induction kvs arbitrary: acc) (auto simp: rename_step_def update_conv')

lemma rename_foldl_map:
  "distinct (map (\<lambda>kv. f (fst kv)) kvs) \<Longrightarrow> f ` fst ` set kvs \<inter> fst ` set acc = {} \<Longrightarrow>
   foldl (rename_step f g) acc kvs = acc @ map (\<lambda>kv. (f (fst kv), g (snd kv))) kvs"
proof (induction kvs arbitrary: acc)
  case Nil
  then show ?case by simp
next
  case (Cons kv kvs)
  have fresh: "f (fst kv) \<notin> fst ` set acc" using Cons.prems(2) by auto
  have step: "rename_step f g acc kv = acc @ [(f (fst kv), g (snd kv))]"
    by (simp add: rename_step_def update_fresh[OF fresh])
  have d: "distinct (map (\<lambda>kv. f (fst kv)) kvs)" using Cons.prems(1) by simp
  have disj: "f ` fst ` set kvs \<inter> fst ` set (acc @ [(f (fst kv), g (snd kv))]) = {}"
    using Cons.prems by auto
  show ?case
    using Cons.IH[OF d disj] step by simp
qed

lemma table_roundtrip_all:
  "\<forall>k \<in> set (map fst PARAMETER_MAPPINGS). snakeKey (normalizedKey k) = k"
  by (simp add: PARAMETER_MAPPINGS_def normalizedKey_def snakeKey_def
      reverseParameterMappings_def)

lemma table_roundtrip_keys:
  "k \<in> fst ` set PARAMETER_MAPPINGS \<Longrightarrow> snakeKey (normalizedKey k) = k"
  using table_roundtrip_all by auto

lemma mapped_entries_keys:
  "mapped_entries p \<Longrightarrow>
     set (map fst p) \<subseteq> set (map fst PARAMETER_MAPPINGS) \<and> distinct (map fst p)"
  by (induction p rule: mapped_entries.induct) auto

lemma roundtrip_inj: "inj_on (\<lambda>k. snakeKey (normalizedKey k)) (set (map fst PARAMETER_MAPPINGS))"
  by (rule inj_on_inverseI[where g = id]) (simp add: table_roundtrip_keys)

lemma normalizedKey_inj: "inj_on normalizedKey (set (map fst PARAMETER_MAPPINGS))"
  by (rule inj_on_inverseI[where g = snakeKey]) (simp add: table_roundtrip_keys)

lemma mapped_normalize:
  assumes "mapped_entries p"
  shows "normalize_entries p [] = map (\<lambda>kv. (normalizedKey (fst kv), normalize_value (snd kv))) p"
proof -
  have k: "set (map fst p) \<subseteq> set (map fst PARAMETER_MAPPINGS)" "distinct (map fst p)"
    using mapped_entries_keys[OF assms] by auto
  have "distinct (map normalizedKey (map fst p))"
    using k normalizedKey_inj by (simp only: distinct_map) (blast intro: inj_on_subset)
  then have d: "distinct (map (\<lambda>kv. normalizedKey (fst kv)) p)" by (simp add: comp_def)
  show ?thesis
    using rename_foldl_map[OF d, of "[]" normalize_value]
    by (simp add: normalize_entries_foldl)
qed

lemma mapped_convert:
  assumes "mapped_entries p"
  shows "convert_entries (normalize_entries p []) [] =
         map (\<lambda>kv. (snakeKey (normalizedKey (fst kv)), convert_value (normalize_value (snd kv)))) p"
proof -
  have k: "set (map fst p) \<subseteq> set (map fst PARAMETER_MAPPINGS)" "distinct (map fst p)"
    using mapped_entries_keys[OF assms] by auto
  let ?q = "map (\<lambda>kv. (normalizedKey (fst kv), normalize_value (snd kv))) p"
  have "distinct (map (\<lambda>k. snakeKey (normalizedKey k)) (map fst p))"
    using k roundtrip_inj by (simp only: distinct_map) (blast intro: inj_on_subset)
  then have d: "distinct (map (\<lambda>kv. snakeKey (fst kv)) ?q)" by (simp add: comp_def)
  show ?thesis
    using rename_foldl_map[OF d, of "[]" convert_value]
    by (simp add: convert_entries_foldl mapped_normalize[OF assms] comp_def)
qed

lemma mapped_roundtrip:
  "mapped_entries p \<Longrightarrow> convert_entries (normalize_entries p []) [] = p"
proof (induction p rule: mapped_entries.induct)
  case 1
  then show ?case by simp
next
  case (2 key v rest)
  have key: "snakeKey (normalizedKey key) = key"
    using "2.prems" table_roundtrip_keys[of key] by simp
  have v: "convert_value (normalize_value v) = v"
  proof (cases v)
    case (JObj nested)
    then have "mapped_entries nested" using "2.prems" by simp
    then have "convert_entries (normalize_entries nested []) [] = nested"
      using "2.IH"(1)[OF JObj] by simp
    then show ?thesis using JObj by (simp add: normalize_value_def convert_value_def)
  qed (simp_all add: normalize_value_def convert_value_def)
  have rest: "mapped_entries rest" using "2.prems" by simp
  have "convert_entries (normalize_entries rest []) [] = rest"
    using "2.IH"(2) rest by simp
  then have tail: "map (\<lambda>kv. (snakeKey (normalizedKey (fst kv)),
      convert_value (normalize_value (snd kv)))) rest = rest"
    using mapped_convert[OF rest] by simp
  show ?case
    using mapped_convert[OF "2.prems"] key v tail by simp
qed

text \<open>
  C7: for every parameter map all of whose keys, including the keys of nested maps, are
  keys of the mapping table, converting the normalized map back gives the map itself:
  \<^verbatim>\<open>convertCamelToSnakeCase\<close> after \<^verbatim>\<open>normalizeParameters\<close> is the identity there.
\<close>

theorem normalize_convert_roundtrip:
  "mapped_entries p \<Longrightarrow>
     convertCamelToSnakeCase (obj_entries (normalizeParameters (JObj p))) = p"
  by (simp add: convertCamelToSnakeCase_def normalizeParameters_def obj_entries_def
      mapped_roundtrip)

theorem normalize_convert_roundtrip_witness:
  "mapped_entries
     [(''project_path'', JStr ''/games/demo''),
      (''scene'', JObj [(''node_path'', JArr [JNum 1, JObj [(''nodeName'', JNull)]])]),
      (''recursive'', JBool True)]
   \<and> convertCamelToSnakeCase (obj_entries (normalizeParameters (JObj
     [(''project_path'', JStr ''/games/demo''),
      (''scene'', JObj [(''node_path'', JArr [JNum 1, JObj [(''nodeName'', JNull)]])]),
      (''recursive'', JBool True)])))
   = [(''project_path'', JStr ''/games/demo''),
      (''scene'', JObj [(''node_path'', JArr [JNum 1, JObj [(''nodeName'', JNull)]])]),
      (''recursive'', JBool True)]"
proof -
  have m: "mapped_entries
     [(''project_path'', JStr ''/games/demo''),
      (''scene'', JObj [(''node_path'', JArr [JNum 1, JObj [(''nodeName'', JNull)]])]),
      (''recursive'', JBool True)]"
    by (simp add: PARAMETER_MAPPINGS_def)
  show ?thesis using m normalize_convert_roundtrip[OF m] by simp
qed

lemma to_lower_not_upper: "\<not> is_upper (to_lower c)"
proof (cases "is_upper c")
  case False
  then show ?thesis by (simp add: to_lower_def)
next
  case True
  then have b: "65 \<le> (of_char c :: nat)" "(of_char c :: nat) \<le> 90"
    by (simp_all add: is_upper_def)
  then have m: "((of_char c :: nat) + 32) mod 256 = of_char c + 32" by simp
  have "(of_char (to_lower c) :: nat) = (of_char c + 32) mod 256"
    using True by (simp add: to_lower_def)
  then have "(of_char (to_lower c) :: nat) = of_char c + 32"
    using m by simp
  then show ?thesis using b unfolding is_upper_def by linarith
qed

lemma underscore_not_upper: "\<not> is_upper (CHR ''_'')"
  by (simp add: is_upper_def)

lemma camel_fallback_list_all: "list_all (\<lambda>c. \<not> is_upper c) (camel_fallback k)"
  by (induction k) (simp_all add: camel_fallback_def to_lower_not_upper underscore_not_upper)

lemma camel_fallback_no_upper: "\<forall>c \<in> set (camel_fallback k). \<not> is_upper c"
  using camel_fallback_list_all[of k] by (simp only: list_all_iff)




lemma table_pairs:
  "\<forall>(s, c) \<in> set PARAMETER_MAPPINGS. s \<noteq> c \<longrightarrow>
      normalizedKey s = c \<and> normalizedKey c = c \<and> s \<notin> snd ` set PARAMETER_MAPPINGS"
  by (simp add: PARAMETER_MAPPINGS_def normalizedKey_def)

lemma table_camel_inj:
  "\<forall>(s, c) \<in> set PARAMETER_MAPPINGS. \<forall>(s', c') \<in> set PARAMETER_MAPPINGS. c = c' \<longrightarrow> s = s'"
  by (simp add: PARAMETER_MAPPINGS_def)

lemma normalizedKey_cases:
  "normalizedKey k = k \<or> (k, normalizedKey k) \<in> set PARAMETER_MAPPINGS"
  by (auto simp: normalizedKey_def split: option.splits dest: map_of_SomeD)

lemma normalizedKey_into_camel:
  assumes "(s, c) \<in> set PARAMETER_MAPPINGS" "normalizedKey k = c"
  shows "k = c \<or> k = s"
  using normalizedKey_cases[of k] assms table_camel_inj by fastforce

lemma normalizedKey_never_snake:
  assumes "(s, c) \<in> set PARAMETER_MAPPINGS" "s \<noteq> c"
  shows "normalizedKey k \<noteq> s"
proof
  assume eq: "normalizedKey k = s"
  from normalizedKey_cases[of k] show False
  proof
    assume "normalizedKey k = k"
    then have "k = s" using eq by simp
    then show False using table_pairs assms eq by fastforce
  next
    assume "(k, normalizedKey k) \<in> set PARAMETER_MAPPINGS"
    then have "s \<in> snd ` set PARAMETER_MAPPINGS" using eq by force
    then show False using table_pairs assms by fastforce
  qed
qed

text \<open>
  C9: when the input map has both a snake-case key of the table and its camel-case
  counterpart, the normalized map has the camel-case key once and the snake-case key not
  at all, and the value under the camel-case key is the (recursively normalized) value of
  whichever of the two keys the input enumerates later; with only these two keys the
  result is a single entry, and the other value is dropped, so that two different inputs
  have the same normal form.
\<close>

theorem normalizeParameters_collision:
  assumes tab: "(s, c) \<in> set PARAMETER_MAPPINGS" and ne: "s \<noteq> c"
    and dist: "distinct (map fst params)"
    and shape: "params = xs @ (k1, v1) # ys @ (k2, v2) # zs"
    and both: "{k1, k2} = {s, c}"
  shows "map_of (obj_entries (normalizeParameters (JObj params))) c = Some (normalize_value v2)
       \<and> distinct (map fst (obj_entries (normalizeParameters (JObj params))))
       \<and> s \<notin> fst ` set (obj_entries (normalizeParameters (JObj params)))
       \<and> (xs = [] \<and> ys = [] \<and> zs = [] \<longrightarrow>
            normalizeParameters (JObj params) = JObj [(c, normalize_value v2)])
       \<and> normalizeParameters (JObj [(s, v1), (c, v2)]) = normalizeParameters (JObj [(c, v2)])
       \<and> JObj [(s, v1), (c, v2)] \<noteq> JObj [(c, v2)]"
proof -
  let ?step = "rename_step normalizedKey normalize_value"
  let ?r = "obj_entries (normalizeParameters (JObj params))"
  have r: "?r = foldl ?step [] params"
    by (simp add: normalizeParameters_def obj_entries_def normalize_entries_foldl)
  have nks: "normalizedKey s = c" and nkc: "normalizedKey c = c"
    using table_pairs tab ne by fastforce+
  have k2: "normalizedKey k2 = c" and k1: "normalizedKey k1 = c"
    using both nks nkc by (auto simp: doubleton_eq_iff)
  have zs_free: "c \<notin> normalizedKey ` fst ` set zs"
  proof
    assume "c \<in> normalizedKey ` fst ` set zs"
    then obtain k where k: "k \<in> fst ` set zs" "normalizedKey k = c" by auto
    then have "k = c \<or> k = s" using normalizedKey_into_camel[OF tab] by blast
    then have "k = k1 \<or> k = k2" using both by (auto simp: doubleton_eq_iff)
    then show False using dist k(1) unfolding shape by auto
  qed
  let ?a = "foldl ?step [] (xs @ (k1, v1) # ys)"
  have split: "foldl ?step [] params = foldl ?step (?step ?a (k2, v2)) zs"
    unfolding shape by simp
  have 1: "map_of ?r c = Some (normalize_value v2)"
    unfolding r split rename_foldl_other[OF zs_free]
    by (simp add: rename_step_def k2 update_conv')
  have 2: "distinct (map fst ?r)"
    unfolding r by (rule rename_foldl_distinct) simp
  have 3: "s \<notin> fst ` set ?r"
    unfolding r rename_foldl_keys using normalizedKey_never_snake[OF tab ne] by auto
  have 4: "xs = [] \<and> ys = [] \<and> zs = [] \<longrightarrow>
            normalizeParameters (JObj params) = JObj [(c, normalize_value v2)]"
    unfolding shape
    by (simp add: normalizeParameters_def normalize_entries_foldl rename_step_def k1 k2)
  have 5: "normalizeParameters (JObj [(s, v1), (c, v2)]) = normalizeParameters (JObj [(c, v2)])"
    by (simp add: normalizeParameters_def normalize_entries_foldl rename_step_def nks nkc)
  have 6: "JObj [(s, v1), (c, v2)] \<noteq> JObj [(c, v2)]" by simp
  show ?thesis using 1 2 3 4 5 6 by blast
qed

theorem normalizeParameters_collision_witness:
  "normalizeParameters (JObj [(''project_path'', JStr ''/old''), (''projectPath'', JStr ''/new'')])
     = JObj [(''projectPath'', JStr ''/new'')]
   \<and> normalizeParameters (JObj [(''projectPath'', JStr ''/new''), (''project_path'', JStr ''/old'')])
     = JObj [(''projectPath'', JStr ''/old'')]"
proof -
  have tab: "(''project_path'', ''projectPath'') \<in> set PARAMETER_MAPPINGS"
    by (simp add: PARAMETER_MAPPINGS_def)
  have ne: "''project_path'' \<noteq> ''projectPath''" by simp
  have d1: "distinct (map fst [(''project_path'', JStr ''/old''), (''projectPath'', JStr ''/new'')])"
    by simp
  have d2: "distinct (map fst [(''projectPath'', JStr ''/new''), (''project_path'', JStr ''/old'')])"
    by simp
  have s1: "[(''project_path'', JStr ''/old''), (''projectPath'', JStr ''/new'')]
      = [] @ (''project_path'', JStr ''/old'') # [] @ (''projectPath'', JStr ''/new'') # []"
    by simp
  have s2: "[(''projectPath'', JStr ''/new''), (''project_path'', JStr ''/old'')]
      = [] @ (''projectPath'', JStr ''/new'') # [] @ (''project_path'', JStr ''/old'') # []"
    by simp
  have b1: "{''project_path'', ''projectPath''} = {''project_path'', ''projectPath''}" by simp
  have b2: "{''projectPath'', ''project_path''} = {''project_path'', ''projectPath''}" by auto
  have n1: "normalize_value (JStr ''/new'') = JStr ''/new''"
    and n2: "normalize_value (JStr ''/old'') = JStr ''/old''"
    by (simp_all add: normalize_value_def)
  show ?thesis
    using normalizeParameters_collision[OF tab ne d1 s1 b1]
      normalizeParameters_collision[OF tab ne d2 s2 b2]
    unfolding n1 n2 by blast
qed

section \<open>Properties of the command protocol builder\<close>

text \<open>
  C1, at the failing input: the JSON text \<^verbatim>\<open>{"a":"it's"}\<close> is quoted for the native shell
  with each single quote replaced by the three characters quote, backslash, quote; the
  quote that should reopen the quoted part is not written. The shell reads the token
  to the end with a quote left open and gets no word, where the claim has it read the
  JSON text back.
\<close>

theorem quotedParams_single_quote:
  "quotedParams False
     [CHR ''{'', dquote, CHR ''a'', dquote, CHR '':'', dquote, CHR ''i'', CHR ''t'', squote,
      CHR ''s'', dquote, CHR ''}'']
   = [squote, CHR ''{'', dquote, CHR ''a'', dquote, CHR '':'', dquote, CHR ''i'', CHR ''t'',
      squote, backslash, squote, CHR ''s'', dquote, CHR ''}'', squote]
   \<and> posix_word Unquoted (quotedParams False
     [CHR ''{'', dquote, CHR ''a'', dquote, CHR '':'', dquote, CHR ''i'', CHR ''t'', squote,
      CHR ''s'', dquote, CHR ''}'']) = None"
  by (simp add: quotedParams_def escapedParams_def replace_all_def squote_def dquote_def
      backslash_def)

text \<open>
  With the quote that reopens the quoted part, four characters for every single quote,
  the shell reads every string back. With the three characters of the code it reads no
  string back that has a single quote and no backslash.
\<close>

lemma posix_word_reopening_scheme:
  "posix_word Unquoted
     ([squote] @ replace_all squote [squote, backslash, squote, squote] s @ [squote]) = Some s"
proof -
  have "posix_word SingleQuoted
     (replace_all squote [squote, backslash, squote, squote] s @ [squote]) = Some s"
    by (induction s) (auto simp: replace_all_def squote_def backslash_def)
  then show ?thesis by simp
qed

lemma posix_word_unquoted_tail:
  "backslash \<notin> set t \<Longrightarrow> posix_word Unquoted (escapedParams t @ [squote]) = None"
proof (induction t)
  case Nil
  then show ?case by (simp add: escapedParams_def replace_all_def)
next
  case (Cons c t)
  then have ih: "posix_word Unquoted (escapedParams t @ [squote]) = None" by simp
  show ?case
  proof (cases "c = squote")
    case True
    then have "escapedParams (c # t) @ [squote] =
        squote # backslash # squote # (escapedParams t @ [squote])"
      by (simp add: escapedParams_def replace_all_def)
    then show ?thesis using ih by (simp add: squote_def backslash_def)
  next
    case False
    then have e: "escapedParams (c # t) @ [squote] = c # (escapedParams t @ [squote])"
      by (simp add: escapedParams_def replace_all_def)
    from Cons.prems have "c \<noteq> backslash" by auto
    with False show ?thesis using ih unfolding e by simp
  qed
qed

lemma quotedParams_never_reads_back:
  assumes "squote \<in> set paramsJson" "backslash \<notin> set paramsJson"
  shows "posix_word Unquoted (quotedParams False paramsJson) = None"
proof -
  have "posix_word SingleQuoted (escapedParams paramsJson @ [squote]) = None"
    using assms
  proof (induction paramsJson)
    case Nil
    then show ?case by simp
  next
    case (Cons c t)
    show ?case
    proof (cases "c = squote")
      case True
      have "backslash \<notin> set t" using Cons.prems by simp
      then have tail: "posix_word Unquoted (escapedParams t @ [squote]) = None"
        by (rule posix_word_unquoted_tail)
      have "escapedParams (c # t) @ [squote] =
          squote # backslash # squote # (escapedParams t @ [squote])"
        using True by (simp add: escapedParams_def replace_all_def)
      then show ?thesis using tail by (simp add: squote_def backslash_def)
    next
      case False
      then have e: "escapedParams (c # t) @ [squote] = c # (escapedParams t @ [squote])"
        by (simp add: escapedParams_def replace_all_def)
      have "posix_word SingleQuoted (escapedParams t @ [squote]) = None"
        using Cons False by simp
      then show ?thesis using False unfolding e by simp
    qed
  qed
  then show ?thesis by (simp add: quotedParams_def)
qed

section \<open>Properties of the path resolver\<close>

lemma isValidGodotPath_caches:
  "isValidGodotPath w m path = (r, m', t) \<Longrightarrow> validatedPaths m' path = Some r"
  by (auto simp: isValidGodotPath_def Let_def split: option.splits if_splits)

lemma isValidGodotPath_hit:
  "validatedPaths m path = Some r \<Longrightarrow> isValidGodotPath w m path = (r, m, [])"
  by (simp add: isValidGodotPath_def)

lemma isValidGodotPath_probes:
  "isValidGodotPath w m path = (r, m', t) \<Longrightarrow>
     length (filter is_exists_probe t) \<le> 1 \<and> length (filter is_exec_probe t) \<le> 1"
  by (auto simp: isValidGodotPath_def Let_def split: option.splits if_splits)

text \<open>
  C4: two successive validations of one path string, whatever the cache held before
  and whatever the file system and the executable do at either time, call
  \<^verbatim>\<open>existsSync\<close> at most once and \<^verbatim>\<open>execAsync\<close> at most once in total; the second call
  makes no call at all, leaves the cache as it is and returns what the first returned,
  also when that is false.
\<close>

theorem isValidGodotPath_second_call_cached:
  "(case isValidGodotPath w1 m path of
      (r1, m1, t1) \<Rightarrow>
        (case isValidGodotPath w2 m1 path of
           (r2, m2, t2) \<Rightarrow>
             r2 = r1 \<and> m2 = m1 \<and> t2 = []
             \<and> length (filter is_exists_probe (t1 @ t2)) \<le> 1
             \<and> length (filter is_exec_probe (t1 @ t2)) \<le> 1))"
proof -
  obtain r1 m1 t1 where first: "isValidGodotPath w1 m path = (r1, m1, t1)"
    by (cases "isValidGodotPath w1 m path") auto
  have second: "isValidGodotPath w2 m1 path = (r1, m1, [])"
    using isValidGodotPath_hit[OF isValidGodotPath_caches[OF first]] .
  show ?thesis
    using isValidGodotPath_probes[OF first] by (simp add: first second)
qed

section \<open>Properties of JSON extraction\<close>

lemma scan_lines_Inr:
  "scan_lines parse ls n = Inr v \<longleftrightarrow>
     (\<exists>i < n. parse (ls ! i) = Some v \<and> (\<forall>j. i < j \<and> j < n \<longrightarrow> parse (ls ! j) = None))"
proof (induction n)
  case 0
  then show ?case by simp
next
  case (Suc n)
  show ?case
  proof (cases "parse (ls ! n)")
    case None
    have "(\<exists>i < Suc n. parse (ls ! i) = Some v \<and> (\<forall>j. i < j \<and> j < Suc n \<longrightarrow> parse (ls ! j) = None))
      \<longleftrightarrow> (\<exists>i < n. parse (ls ! i) = Some v \<and> (\<forall>j. i < j \<and> j < n \<longrightarrow> parse (ls ! j) = None))"
      (is "?L \<longleftrightarrow> ?R")
    proof
      assume ?L
      then obtain i where i: "i < Suc n" "parse (ls ! i) = Some v"
        "\<forall>j. i < j \<and> j < Suc n \<longrightarrow> parse (ls ! j) = None" by blast
      then have "i \<noteq> n" using None by auto
      then have "i < n" using i(1) by simp
      then show ?R using i by auto
    next
      assume ?R
      then obtain i where i: "i < n" "parse (ls ! i) = Some v"
        "\<forall>j. i < j \<and> j < n \<longrightarrow> parse (ls ! j) = None" by blast
      have "\<forall>j. i < j \<and> j < Suc n \<longrightarrow> parse (ls ! j) = None"
        using i(3) None by (auto simp: less_Suc_eq)
      then show ?L using i by (intro exI[of _ i]) simp
    qed
    then show ?thesis using None Suc by simp
  next
    case (Some u)
    have "(\<exists>i < Suc n. parse (ls ! i) = Some v \<and> (\<forall>j. i < j \<and> j < Suc n \<longrightarrow> parse (ls ! j) = None))
      \<longleftrightarrow> u = v" (is "?L \<longleftrightarrow> _")
    proof
      assume ?L
      then obtain i where i: "i < Suc n" "parse (ls ! i) = Some v"
        "\<forall>j. i < j \<and> j < Suc n \<longrightarrow> parse (ls ! j) = None" by blast
      have "i = n"
      proof (rule ccontr)
        assume "i \<noteq> n"
        then have "i < n" using i(1) by simp
        then have "parse (ls ! n) = None" using i(3) by simp
        then show False using Some by simp
      qed
      then show "u = v" using i(2) Some by simp
    next
      assume "u = v"
      then show ?L using Some by (intro exI[of _ n]) auto
    qed
    then show ?thesis using Some by simp
  qed
qed

lemma scan_lines_Inl:
  "(\<exists>e. scan_lines parse ls n = Inl e) \<longleftrightarrow> (\<forall>i < n. parse (ls ! i) = None)"
  by (induction n) (auto simp: less_Suc_eq split: option.splits)

lemma scan_lines_last:
  "parse payload = Some v \<Longrightarrow>
     scan_lines parse (logs @ [payload]) (length (logs @ [payload])) = Inr v"
  by simp

lemma nonempty_lines_Nil: "nonempty_lines [] = []"
  by (simp add: nonempty_lines_def trim_def)

lemma extractJsonFromOutput_scan:
  "extractJsonFromOutput parse out = Inr v \<longleftrightarrow>
     scan_lines parse (nonempty_lines (trim out)) (length (nonempty_lines (trim out))) = Inr v"
  by (simp add: extractJsonFromOutput_def Let_def nonempty_lines_Nil)

lemma extractJsonFromOutput_fails:
  "(\<exists>e. extractJsonFromOutput parse out = Inl e) \<longleftrightarrow>
     (\<exists>e. scan_lines parse (nonempty_lines (trim out)) (length (nonempty_lines (trim out))) = Inl e)"
  by (simp add: extractJsonFromOutput_def Let_def nonempty_lines_Nil)

lemma parse_failure_is_not_execution_failure:
  "createErrorResponse (''Failed to '' @ toolName @ '': Unable to parse JSON output'')
     [''Run with DEBUG=true for verbose logging'',
      ''Verify the requested resource exists and is readable'']
   \<noteq> createErrorResponse (''Failed to '' @ toolName @ '': '' @ stderr)
       [''Check the operation parameters'', ''Verify file paths are correct'',
        ''Ensure proper permissions'']"
  by (simp add: createErrorResponse_def)

lemma operation_response_parse_failure:
  assumes "\<not> (stderr \<noteq> [] \<and> includes_str stderr ''Failed to'')" "expectsJson options"
    "extractJsonFromOutput (JSON_parse h) stdout = Inl e"
  shows "operation_response h toolName options stdout stderr =
     createErrorResponse (''Failed to '' @ toolName @ '': Unable to parse JSON output'')
       [''Run with DEBUG=true for verbose logging'',
        ''Verify the requested resource exists and is readable'']"
  using assms by (auto simp: operation_response_def)

lemma operation_response_execution_failure:
  assumes "stderr \<noteq> [] \<and> includes_str stderr ''Failed to''"
  shows "operation_response h toolName options stdout stderr =
     createErrorResponse (''Failed to '' @ toolName @ '': '' @ stderr)
       [''Check the operation parameters'', ''Verify file paths are correct'',
        ''Ensure proper permissions'']"
  using assms by (simp add: operation_response_def)

text \<open>
  C8: with \<open>ls\<close> the trimmed, non-empty lines of the captured output, the extraction
  returns \<open>v\<close> exactly when \<open>v\<close> is the parse of the last line that parses, so that
  whatever lines come before the payload line do not matter; it fails exactly when no
  line parses. When structured results are requested and the run is not classified as
  an execution failure, a failed extraction is reported by an error response of its
  own, different from every response for an execution failure.
\<close>

theorem extractJsonFromOutput_backward_scan:
  "(extractJsonFromOutput parse out = Inr v \<longleftrightarrow>
      (\<exists>i < length (nonempty_lines (trim out)).
          parse (nonempty_lines (trim out) ! i) = Some v
          \<and> (\<forall>j. i < j \<and> j < length (nonempty_lines (trim out))
                \<longrightarrow> parse (nonempty_lines (trim out) ! j) = None)))
   \<and> ((\<exists>e. extractJsonFromOutput parse out = Inl e) \<longleftrightarrow>
        (\<forall>line \<in> set (nonempty_lines (trim out)). parse line = None))
   \<and> (nonempty_lines (trim out) = logs @ [payload] \<and> parse payload = Some v
        \<longrightarrow> extractJsonFromOutput parse out = Inr v)
   \<and> ((\<exists>e. extractJsonFromOutput (JSON_parse h) stdout = Inl e) \<and> expectsJson options
        \<and> \<not> (stderr \<noteq> [] \<and> includes_str stderr ''Failed to'')
        \<longrightarrow> isError (operation_response h toolName options stdout stderr)
          \<and> operation_response h toolName options stdout stderr
              = createErrorResponse (''Failed to '' @ toolName @ '': Unable to parse JSON output'')
                  [''Run with DEBUG=true for verbose logging'',
                   ''Verify the requested resource exists and is readable'']
          \<and> (\<forall>stderr'. stderr' \<noteq> [] \<and> includes_str stderr' ''Failed to'' \<longrightarrow>
                operation_response h toolName options stdout stderr
                  \<noteq> operation_response h toolName options stdout stderr'))"
proof -
  let ?ls = "nonempty_lines (trim out)"
  have 1: "extractJsonFromOutput parse out = Inr v \<longleftrightarrow>
      (\<exists>i < length ?ls. parse (?ls ! i) = Some v
          \<and> (\<forall>j. i < j \<and> j < length ?ls \<longrightarrow> parse (?ls ! j) = None))"
    unfolding extractJsonFromOutput_scan scan_lines_Inr ..
  have 2: "(\<exists>e. extractJsonFromOutput parse out = Inl e) \<longleftrightarrow>
        (\<forall>line \<in> set ?ls. parse line = None)"
    unfolding extractJsonFromOutput_fails scan_lines_Inl all_set_conv_all_nth ..
  have 3: "?ls = logs @ [payload] \<and> parse payload = Some v
        \<longrightarrow> extractJsonFromOutput parse out = Inr v"
    unfolding extractJsonFromOutput_scan using scan_lines_last[of parse payload v logs]
    by auto
  have 4: "(\<exists>e. extractJsonFromOutput (JSON_parse h) stdout = Inl e) \<and> expectsJson options
        \<and> \<not> (stderr \<noteq> [] \<and> includes_str stderr ''Failed to'')
        \<longrightarrow> isError (operation_response h toolName options stdout stderr)
          \<and> operation_response h toolName options stdout stderr
              = createErrorResponse (''Failed to '' @ toolName @ '': Unable to parse JSON output'')
                  [''Run with DEBUG=true for verbose logging'',
                   ''Verify the requested resource exists and is readable'']
          \<and> (\<forall>stderr'. stderr' \<noteq> [] \<and> includes_str stderr' ''Failed to'' \<longrightarrow>
                operation_response h toolName options stdout stderr
                  \<noteq> operation_response h toolName options stdout stderr')"
  proof (intro impI, elim conjE exE)
    fix e
    assume a: "extractJsonFromOutput (JSON_parse h) stdout = Inl e" "expectsJson options"
      "\<not> (stderr \<noteq> [] \<and> includes_str stderr ''Failed to'')"
    have eq: "operation_response h toolName options stdout stderr
              = createErrorResponse (''Failed to '' @ toolName @ '': Unable to parse JSON output'')
                  [''Run with DEBUG=true for verbose logging'',
                   ''Verify the requested resource exists and is readable'']"
      using operation_response_parse_failure[OF a(3) a(2) a(1)] .
    have err: "isError (operation_response h toolName options stdout stderr)"
      unfolding eq by (simp add: createErrorResponse_def)
    have diff: "\<forall>stderr'. stderr' \<noteq> [] \<and> includes_str stderr' ''Failed to'' \<longrightarrow>
                operation_response h toolName options stdout stderr
                  \<noteq> operation_response h toolName options stdout stderr'"
      unfolding eq
      using operation_response_execution_failure parse_failure_is_not_execution_failure
      by metis
    show "isError (operation_response h toolName options stdout stderr)
          \<and> operation_response h toolName options stdout stderr
              = createErrorResponse (''Failed to '' @ toolName @ '': Unable to parse JSON output'')
                  [''Run with DEBUG=true for verbose logging'',
                   ''Verify the requested resource exists and is readable'']
          \<and> (\<forall>stderr'. stderr' \<noteq> [] \<and> includes_str stderr' ''Failed to'' \<longrightarrow>
                operation_response h toolName options stdout stderr
                  \<noteq> operation_response h toolName options stdout stderr')"
      using eq err diff by blast
  qed
  show ?thesis using 1 2 3 4 by blast
qed

theorem extractJsonFromOutput_backward_scan_witness:
  "nonempty_lines (trim (''Godot Engine v4.2'' @ [newline] @ ''  [log] scene loaded ''
       @ [carriage_return, newline] @ '' [1] '' @ [newline]))
     = [''Godot Engine v4.2'', ''[log] scene loaded''] @ [''[1]'']
   \<and> extractJsonFromOutput (\<lambda>s. if s = ''[1]'' then Some (JArr [JNum 1]) else None)
       (''Godot Engine v4.2'' @ [newline] @ ''  [log] scene loaded ''
          @ [carriage_return, newline] @ '' [1] '' @ [newline])
     = Inr (JArr [JNum 1])
   \<and> extractJsonFromOutput (\<lambda>s. if s = ''[1]'' then Some (JArr [JNum 1]) else None)
       ''ERROR: scene not found'' = Inl UnableToParseJson
   \<and> operation_response
        \<lparr>existsSync = (\<lambda>p. True), path_join = (\<lambda>a b. a @ ''/'' @ b),
         message_of = (\<lambda>e. ''TypeError''),
         JSON_parse = (\<lambda>s. if s = ''[1]'' then Some (JArr [JNum 1]) else None),
         JSON_stringify = (\<lambda>v. ''[1]''),
         executeOperation = (\<lambda>operation params projectPath. Resolved [] [])\<rparr>
        ''read TileMap'' \<lparr>expectsJson = True, successMessage = None\<rparr>
        ''ERROR: scene not found'' []
     = createErrorResponse ''Failed to read TileMap: Unable to parse JSON output''
         [''Run with DEBUG=true for verbose logging'',
          ''Verify the requested resource exists and is readable'']"
proof -
  let ?parse = "\<lambda>s. if s = ''[1]'' then Some (JArr [JNum 1]) else None"
  let ?out = "''Godot Engine v4.2'' @ [newline] @ ''  [log] scene loaded ''
       @ [carriage_return, newline] @ '' [1] '' @ [newline]"
  let ?h = "\<lparr>existsSync = (\<lambda>p. True), path_join = (\<lambda>a b. a @ ''/'' @ b),
         message_of = (\<lambda>e. ''TypeError''),
         JSON_parse = ?parse, JSON_stringify = (\<lambda>v. ''[1]''),
         executeOperation = (\<lambda>operation params projectPath. Resolved [] [])\<rparr>"
  let ?options = "\<lparr>expectsJson = True, successMessage = None\<rparr>"
  have lines: "nonempty_lines (trim ?out)
     = [''Godot Engine v4.2'', ''[log] scene loaded''] @ [''[1]'']"
    by (simp add: nonempty_lines_def trim_def is_space_def newline_def carriage_return_def)
  have payload: "?parse ''[1]'' = Some (JArr [JNum 1])" by simp
  have bad: "\<forall>line \<in> set (nonempty_lines (trim ''ERROR: scene not found'')). ?parse line = None"
    by (simp add: nonempty_lines_def trim_def is_space_def newline_def carriage_return_def)
  have good: "extractJsonFromOutput ?parse ?out = Inr (JArr [JNum 1])"
    using extractJsonFromOutput_backward_scan[of ?parse ?out "JArr [JNum 1]"
        "[''Godot Engine v4.2'', ''[log] scene loaded'']" "''[1]''"] lines payload
    by blast
  have "\<exists>e. extractJsonFromOutput ?parse ''ERROR: scene not found'' = Inl e"
    using extractJsonFromOutput_backward_scan[of ?parse "''ERROR: scene not found''"] bad
    by blast
  then have fails: "\<exists>e. extractJsonFromOutput (JSON_parse ?h) ''ERROR: scene not found'' = Inl e"
    by simp
  have exp: "expectsJson ?options" by simp
  have quiet: "\<not> (([]::string) \<noteq> [] \<and> includes_str [] ''Failed to'')" by simp
  have resp: "operation_response ?h ''read TileMap'' ?options ''ERROR: scene not found'' []
     = createErrorResponse (''Failed to '' @ ''read TileMap'' @ '': Unable to parse JSON output'')
         [''Run with DEBUG=true for verbose logging'',
          ''Verify the requested resource exists and is readable'']"
    using extractJsonFromOutput_backward_scan[of _ _ _ _ _ ?h "''ERROR: scene not found''"
        ?options "[]" "''read TileMap''"] fails exp quiet
    by blast
  have e: "extractJsonFromOutput ?parse ''ERROR: scene not found'' = Inl UnableToParseJson"
    by (simp add: extractJsonFromOutput_def nonempty_lines_def trim_def is_space_def
        newline_def carriage_return_def)
  show ?thesis using lines good e resp by simp
qed

section \<open>Properties of the dispatch framework\<close>





lemma reverse_table_values:
  "\<forall>(c, s) \<in> set reverseParameterMappings. s \<noteq> ''projectPath''"
  by (simp add: reverseParameterMappings_def PARAMETER_MAPPINGS_def)

lemma snakeKey_not_projectPath: "snakeKey k \<noteq> ''projectPath''"
proof
  assume eq: "snakeKey k = ''projectPath''"
  have fb: "camel_fallback k \<noteq> ''projectPath''"
  proof
    assume "camel_fallback k = ''projectPath''"
    then have "CHR ''P'' \<in> set (camel_fallback k)" by simp
    moreover have "is_upper (CHR ''P'')" by (simp add: is_upper_def)
    ultimately show False using camel_fallback_no_upper[of k] by blast
  qed
  show False
  proof (cases "map_of reverseParameterMappings k")
    case None
    then show False using eq fb by (simp add: snakeKey_def)
  next
    case (Some s)
    then have "(k, s) \<in> set reverseParameterMappings" by (rule map_of_SomeD)
    then have "s \<noteq> ''projectPath''" using reverse_table_values by blast
    then show False using eq fb Some by (simp add: snakeKey_def split: if_splits)
  qed
qed

lemma handleOperationTool_calls:
  assumes required: "missing_parameters (normalized_args rawArgs) requiredParams = []"
    and paths: "\<forall>(k, v) \<in> set (normalized_args rawArgs).
        includes_str (toLowerCase k) ''path'' \<longrightarrow> (\<forall>p. v = JStr p \<longrightarrow> validatePath p)"
    and project: "\<forall>path. map_of (normalized_args rawArgs) ''projectPath'' = Some path
        \<and> truthy (Some path) \<longrightarrow> isValidGodotProject h path = Inr True"
  shows "snd (handleOperationTool h toolName operation rawArgs requiredParams options) =
     [(operation,
       filter (\<lambda>entry. fst entry \<noteq> ''projectPath'') (normalized_args rawArgs),
       map_of (normalized_args rawArgs) ''projectPath'')]"
proof -
  let ?args = "normalized_args rawArgs"
  have inv: "filter (\<lambda>param. case map_of ?args param of
                                 Some (JStr v) \<Rightarrow> \<not> validatePath v
                               | _ \<Rightarrow> False)
       (filter (\<lambda>param. includes_str (toLowerCase param) ''path'') (map fst ?args)) = []"
  proof -
    have "\<not> (case map_of ?args param of Some (JStr v) \<Rightarrow> \<not> validatePath v | _ \<Rightarrow> False)"
      if "includes_str (toLowerCase param) ''path''" for param
    proof (cases "map_of ?args param")
      case None
      then show ?thesis by simp
    next
      case (Some v)
      then have "(param, v) \<in> set ?args" by (rule map_of_SomeD)
      then have "\<forall>p. v = JStr p \<longrightarrow> validatePath p" using paths that by blast
      then show ?thesis using Some by (cases v) simp_all
    qed
    then show ?thesis by (simp add: filter_empty_conv)
  qed
  have valid: "(case map_of ?args ''projectPath'' of
                  Some path \<Rightarrow> if truthy (Some path) then isValidGodotProject h path else Inr True
                | None \<Rightarrow> Inr True) = Inr True"
    using project by (cases "map_of ?args ''projectPath''") auto
  show ?thesis
    using required inv valid
    by (simp add: handleOperationTool_def Let_def missing_parameters_def normalized_args_def)
qed

lemma map_of_filter_key:
  "map_of (filter (\<lambda>entry. fst entry \<noteq> k0) al) k = (if k = k0 then None else map_of al k)"
  by (induction al) auto

text \<open>
  C10: when every required parameter has a truthy value, no path parameter has a string
  value that fails path validation, and the project path, if it is given, names a valid
  project, the dispatch calls \<^verbatim>\<open>executeOperation\<close> once, with the normalized argument map
  from which the entry \<^verbatim>\<open>projectPath\<close> is removed and every other entry is kept, in
  order and unchanged; the map converted for the engine has no key \<^verbatim>\<open>projectPath\<close>.
\<close>

theorem handleOperationTool_forwards_params:
  assumes required: "\<forall>param \<in> set requiredParams. truthy (map_of (normalized_args rawArgs) param)"
    and paths: "\<forall>(k, v) \<in> set (normalized_args rawArgs).
        includes_str (toLowerCase k) ''path'' \<longrightarrow> (\<forall>p. v = JStr p \<longrightarrow> validatePath p)"
    and project: "\<forall>path. map_of (normalized_args rawArgs) ''projectPath'' = Some path
        \<and> truthy (Some path) \<longrightarrow> isValidGodotProject h path = Inr True"
  shows "snd (handleOperationTool h toolName operation rawArgs requiredParams options) =
     [(operation,
       filter (\<lambda>entry. fst entry \<noteq> ''projectPath'') (normalized_args rawArgs),
       map_of (normalized_args rawArgs) ''projectPath'')]
   \<and> map_of (filter (\<lambda>entry. fst entry \<noteq> ''projectPath'') (normalized_args rawArgs))
        ''projectPath'' = None
   \<and> (\<forall>k. k \<noteq> ''projectPath'' \<longrightarrow>
         map_of (filter (\<lambda>entry. fst entry \<noteq> ''projectPath'') (normalized_args rawArgs)) k
           = map_of (normalized_args rawArgs) k)
   \<and> ''projectPath'' \<notin> fst ` set (convertCamelToSnakeCase
         (filter (\<lambda>entry. fst entry \<noteq> ''projectPath'') (normalized_args rawArgs)))"
proof -
  have none: "missing_parameters (normalized_args rawArgs) requiredParams = []"
    using required by (simp add: missing_parameters_def filter_empty_conv)
  have keys: "''projectPath'' \<notin> fst ` set (convertCamelToSnakeCase params)" for params
  proof -
    have "fst ` set (convertCamelToSnakeCase params) = snakeKey ` fst ` set params"
      by (simp add: convertCamelToSnakeCase_def convert_entries_foldl rename_foldl_keys)
    then show ?thesis using snakeKey_not_projectPath by (metis imageE)
  qed
  show ?thesis
    using handleOperationTool_calls[OF none paths project] keys
    by (simp add: map_of_filter_key)
qed

theorem handleOperationTool_forwards_params_witness:
  "handleOperationTool example_host ''save scene'' ''save_scene''
      [(''project_path'', JStr ''/games/demo''), (''scene_path'', JStr ''main.tscn''),
       (''tilemapName'', JStr ''Ground'')]
      [''projectPath'', ''scenePath''] example_options
   = (text_response [''save scene completed successfully.'' @ [newline, newline] @ ''Output: done''],
      [(''save_scene'',
        [(''scenePath'', JStr ''main.tscn''), (''tilemapName'', JStr ''Ground'')],
        Some (JStr ''/games/demo''))])"
proof -
  let ?raw = "[(''project_path'', JStr ''/games/demo''), (''scene_path'', JStr ''main.tscn''),
       (''tilemapName'', JStr ''Ground'')]"
  have args: "normalized_args ?raw =
      [(''projectPath'', JStr ''/games/demo''), (''scenePath'', JStr ''main.tscn''),
       (''tilemapName'', JStr ''Ground'')]"
    by (simp add: normalized_args_def normalizeParameters_def obj_entries_def
        normalizedKey_def PARAMETER_MAPPINGS_def)
  have required: "\<forall>param \<in> set [''projectPath'', ''scenePath''].
      truthy (map_of (normalized_args ?raw) param)"
    unfolding args by simp
  have paths: "\<forall>(k, v) \<in> set (normalized_args ?raw).
        includes_str (toLowerCase k) ''path'' \<longrightarrow> (\<forall>p. v = JStr p \<longrightarrow> validatePath p)"
    unfolding args by (simp add: validatePath_def)
  have project: "\<forall>path. map_of (normalized_args ?raw) ''projectPath'' = Some path
        \<and> truthy (Some path) \<longrightarrow> isValidGodotProject example_host path = Inr True"
    unfolding args by (simp add: isValidGodotProject_def example_host_def)
  have calls: "snd (handleOperationTool example_host ''save scene'' ''save_scene'' ?raw
      [''projectPath'', ''scenePath''] example_options)
    = [(''save_scene'',
        [(''scenePath'', JStr ''main.tscn''), (''tilemapName'', JStr ''Ground'')],
        Some (JStr ''/games/demo''))]"
    using handleOperationTool_forwards_params[OF required paths project,
        of "''save scene''" "''save_scene''" example_options]
    unfolding args by simp
  have resp: "fst (handleOperationTool example_host ''save scene'' ''save_scene'' ?raw
      [''projectPath'', ''scenePath''] example_options)
    = text_response [''save scene completed successfully.'' @ [newline, newline] @ ''Output: done'']"
    by code_simp
  show ?thesis using calls resp by (simp add: prod_eq_iff)
qed

section \<open>Properties of the process orchestrator\<close>

lemma kill_existing_length [simp]: "length (children (kill_existing s)) = length (children s)"
  by (simp add: kill_existing_def split: option.splits)

lemma kill_existing_active [simp]: "activeProcess (kill_existing s) = activeProcess s"
  by (simp add: kill_existing_def split: option.splits)

lemma kill_existing_killed:
  "activeProcess s = Some p \<Longrightarrow> p < length (children s) \<Longrightarrow>
     killed (children (kill_existing s) ! p)"
  by (simp add: kill_existing_def)

lemma kill_existing_flags:
  "p < length (children s) \<Longrightarrow>
     (killed (children s ! p) \<longrightarrow> killed (children (kill_existing s) ! p))
     \<and> exited (children (kill_existing s) ! p) = exited (children s ! p)
     \<and> failed (children (kill_existing s) ! p) = failed (children s ! p)"
proof (cases "activeProcess s")
  case None
  then show ?thesis by (simp add: kill_existing_def)
next
  case (Some q)
  assume p: "p < length (children s)"
  show ?thesis
  proof (cases "q < length (children s)")
    case True
    then show ?thesis using Some p by (simp add: kill_existing_def nth_list_update)
  next
    case False
    then show ?thesis using Some by (simp add: kill_existing_def list_update_beyond)
  qed
qed

lemma error_is_not_started: "createErrorResponse message solutions \<noteq> started_response"
  by (simp add: createErrorResponse_def started_response_def text_response_def)

lemma run_project_try_cases:
  "run_project_try h enginePath s args path = (r, s') \<Longrightarrow>
     (s' = s \<and> r \<noteq> Inr started_response)
     \<or> (s' = kill_existing s \<and> (\<exists>e. r = Inl e))
     \<or> (r = Inr started_response
         \<and> (\<exists>cmdArgs. s' = record_active (length (children s))
                              (spawn_child cmdArgs (kill_existing s))))"
  by (auto simp: run_project_try_def Let_def error_is_not_started
      split: sum.splits bool.splits option.splits)

lemma handleRunProject_cases:
  "handleRunProject h enginePath s rawArgs = (r, s') \<Longrightarrow>
     (s' = s \<and> r \<noteq> Inr started_response)
     \<or> (s' = kill_existing s \<and> r \<noteq> Inr started_response)
     \<or> (r = Inr started_response
         \<and> (\<exists>cmdArgs. s' = record_active (length (children s))
                              (spawn_child cmdArgs (kill_existing s))))"
proof -
  assume run: "handleRunProject h enginePath s rawArgs = (r, s')"
  let ?args = "obj_entries (normalizeParameters (JObj rawArgs))"
  show ?thesis
  proof (cases "\<exists>path. map_of ?args ''projectPath'' = Some path \<and> truthy (Some path)
                  \<and> validatePath_value path = Some True")
    case False
    then have "s' = s \<and> r \<noteq> Inr started_response"
      using run
      by (auto simp: handleRunProject_def Let_def error_is_not_started
          split: option.splits bool.splits if_splits)
    then show ?thesis by simp
  next
    case True
    then obtain path where path: "map_of ?args ''projectPath'' = Some path"
      "truthy (Some path)" "validatePath_value path = Some True" by blast
    obtain r0 s0 where tried: "run_project_try h enginePath s ?args path = (r0, s0)"
      by (cases "run_project_try h enginePath s ?args path") auto
    have s': "s' = s0" and r: "r = (case r0 of
        Inl error \<Rightarrow> Inr (createErrorResponse
                            (''Failed to run Godot project: '' @ message_of h error)
                            [''Ensure Godot is installed correctly'',
                             ''Check if the GODOT_PATH environment variable is set correctly'',
                             ''Verify the project path is accessible''])
      | Inr response \<Rightarrow> Inr response)"
      using run path tried
      by (auto simp: handleRunProject_def Let_def split: sum.splits)
    from run_project_try_cases[OF tried] show ?thesis
      unfolding s' r by (auto simp: error_is_not_started split: sum.splits)
  qed
qed

lemma handleRunProject_started:
  "handleRunProject h enginePath s rawArgs = (Inr started_response, s') \<Longrightarrow>
     \<exists>cmdArgs. s' = record_active (length (children s)) (spawn_child cmdArgs (kill_existing s))"
  using handleRunProject_cases[of h enginePath s rawArgs "Inr started_response" s'] by auto

lemma child_step_length:
  "child_event e \<Longrightarrow> length (children (step h s e)) = length (children s)"
  by (cases e) (simp_all add: on_stdout_def on_stderr_def on_exit_def on_error_def release_def)

lemma child_step_none:
  "child_event e \<Longrightarrow> activeProcess s = None \<Longrightarrow> activeProcess (step h s e) = None"
  by (cases e) (simp_all add: on_stdout_def on_stderr_def on_exit_def on_error_def release_def)

lemma child_step_ends:
  "child_event e \<Longrightarrow> activeProcess s = Some p \<Longrightarrow> p < length (children s) \<Longrightarrow>
     ends p e \<Longrightarrow> activeProcess (step h s e) = None"
  by (cases e) (simp_all add: on_exit_def on_error_def release_def)

lemma child_step_tracked:
  assumes "child_event e" "activeProcess s = Some p" "p < length (children s)" "\<not> ends p e"
  shows "activeProcess (step h s e) = Some p
       \<and> stdout_lines (children (step h s e) ! p) = stdout_lines (children s ! p) @ stdout_of p e
       \<and> stderr_lines (children (step h s e) ! p) = stderr_lines (children s ! p) @ stderr_of p e"
  using assms
  by (cases e)
    (auto simp: on_stdout_def on_stderr_def on_exit_def on_error_def release_def
      nth_list_update)

lemma child_events_none:
  "\<forall>e \<in> set evs. child_event e \<Longrightarrow> activeProcess s = None \<Longrightarrow>
     activeProcess (run_events h s evs) = None"
  unfolding run_events_def
  by (induction evs arbitrary: s) (simp_all add: child_step_none)

lemma child_events_tracked:
  assumes "\<forall>e \<in> set evs. child_event e" "activeProcess s = Some p" "p < length (children s)"
    "\<forall>e \<in> set evs. \<not> ends p e"
  shows "activeProcess (run_events h s evs) = Some p
       \<and> stdout_lines (children (run_events h s evs) ! p)
           = stdout_lines (children s ! p) @ concat (map (stdout_of p) evs)
       \<and> stderr_lines (children (run_events h s evs) ! p)
           = stderr_lines (children s ! p) @ concat (map (stderr_of p) evs)"
  using assms unfolding run_events_def
proof (induction evs arbitrary: s)
  case Nil
  then show ?case by simp
next
  case (Cons e evs)
  have e: "child_event e" "\<not> ends p e" using Cons.prems by auto
  note st = child_step_tracked[OF e(1) Cons.prems(2) Cons.prems(3) e(2), of h]
  have len: "p < length (children (step h s e))"
    using child_step_length[OF e(1), of h s] Cons.prems(3) by simp
  have rest: "\<forall>e \<in> set evs. child_event e" "\<forall>e \<in> set evs. \<not> ends p e"
    using Cons.prems by auto
  show ?case
    using Cons.IH[OF rest(1) _ len rest(2)] st by simp
qed

lemma child_events_ended:
  assumes "\<forall>e \<in> set evs. child_event e" "activeProcess s = Some p" "p < length (children s)"
    "\<exists>e \<in> set evs. ends p e"
  shows "activeProcess (run_events h s evs) = None"
  using assms
proof (induction evs arbitrary: s)
  case Nil
  then show ?case by simp
next
  case (Cons e evs)
  have e: "child_event e" and rest: "\<forall>e \<in> set evs. child_event e"
    using Cons.prems(1) by auto
  have unfold: "run_events h s (e # evs) = run_events h (step h s e) evs"
    by (simp add: run_events_def)
  show ?case
  proof (cases "ends p e")
    case True
    have "activeProcess (step h s e) = None"
      using child_step_ends[OF e Cons.prems(2) Cons.prems(3) True] .
    then show ?thesis unfolding unfold by (rule child_events_none[OF rest])
  next
    case False
    then have later: "\<exists>e \<in> set evs. ends p e" using Cons.prems(4) by auto
    have act: "activeProcess (step h s e) = Some p"
      using child_step_tracked[OF e Cons.prems(2) Cons.prems(3) False] by simp
    have len: "p < length (children (step h s e))"
      using child_step_length[OF e, of h s] Cons.prems(3) by simp
    show ?thesis unfolding unfold using Cons.IH[OF rest act len later] .
  qed
qed

lemma debug_output_after_events:
  assumes "\<forall>e \<in> set evs. child_event e" "activeProcess s = Some p" "p < length (children s)"
    "stdout_lines (children s ! p) = []" "stderr_lines (children s ! p) = []"
  shows "handleGetDebugOutput h (run_events h s evs) =
     (if \<exists>e \<in> set evs. ends p e then no_active_process
      else debug_output h (concat (map (stdout_of p) evs)) (concat (map (stderr_of p) evs)))"
proof (cases "\<exists>e \<in> set evs. ends p e")
  case True
  then show ?thesis
    using child_events_ended[OF assms(1-3) True] by (simp add: handleGetDebugOutput_def)
next
  case False
  then have "\<forall>e \<in> set evs. \<not> ends p e" by simp
  from child_events_tracked[OF assms(1-3) this, of h] show ?thesis
    using False assms(4,5) by (simp add: handleGetDebugOutput_def)
qed

lemma untracked_kill_existing:
  assumes "untracked_are_over s"
  shows "untracked_are_over (kill_existing s)"
  using assms kill_existing_flags[of _ s]
  unfolding untracked_are_over_def by simp blast

lemma untracked_release_all:
  assumes "untracked_are_over s"
  shows "untracked_are_over ((kill_existing s)\<lparr>activeProcess := None\<rparr>)"
proof -
  have "killed (children (kill_existing s) ! p) \<or> exited (children (kill_existing s) ! p)
      \<or> failed (children (kill_existing s) ! p)" if p: "p < length (children s)" for p
  proof (cases "activeProcess s = Some p")
    case True
    then show ?thesis using kill_existing_killed[OF True p] by simp
  next
    case False
    then show ?thesis using assms p kill_existing_flags[OF p]
      unfolding untracked_are_over_def by blast
  qed
  then show ?thesis by (simp add: untracked_are_over_def)
qed

lemma untracked_spawn:
  assumes "untracked_are_over s"
  shows "untracked_are_over
     (record_active (length (children s)) (spawn_child cmdArgs (kill_existing s)))"
proof -
  let ?s' = "record_active (length (children s)) (spawn_child cmdArgs (kill_existing s))"
  have ch: "children ?s' = children (kill_existing s) @
      [\<lparr>spawn_args = cmdArgs, stdout_lines = [], stderr_lines = [],
        killed = False, exited = False, failed = False\<rparr>]"
    and act: "activeProcess ?s' = Some (length (children s))"
    by (simp_all add: record_active_def spawn_child_def)
  have old: "killed (children ?s' ! p) \<or> exited (children ?s' ! p) \<or> failed (children ?s' ! p)"
    if p: "p < length (children s)" for p
  proof -
    have "killed (children (kill_existing s) ! p) \<or> exited (children (kill_existing s) ! p)
      \<or> failed (children (kill_existing s) ! p)"
    proof (cases "activeProcess s = Some p")
      case True
      then show ?thesis using kill_existing_killed[OF True p] by simp
    next
      case False
      then show ?thesis using assms p kill_existing_flags[OF p]
        unfolding untracked_are_over_def by blast
    qed
    then show ?thesis using p by (simp add: ch nth_append)
  qed
  show ?thesis
    unfolding untracked_are_over_def act
    using old by (auto simp: ch less_Suc_eq)
qed

lemma untracked_flag_update:
  assumes "untracked_are_over s" "p < length (children s)"
    "killed c' = killed (children s ! p)" "exited (children s ! p) \<longrightarrow> exited c'"
    "failed (children s ! p) \<longrightarrow> failed c'"
  shows "untracked_are_over (s\<lparr>children := (children s)[p := c']\<rparr>)"
  using assms unfolding untracked_are_over_def
  by (auto simp: nth_list_update)

lemma untracked_release:
  assumes "untracked_are_over s" "p < length (children s)"
    "exited (children s ! p) \<or> failed (children s ! p)"
  shows "untracked_are_over (release p s)"
  using assms unfolding untracked_are_over_def release_def by auto

lemma untracked_step: "untracked_are_over s \<Longrightarrow> untracked_are_over (step h s e)"
proof (cases e)
  case (RunProject enginePath rawArgs)
  assume inv: "untracked_are_over s"
  obtain r s' where run: "handleRunProject h enginePath s rawArgs = (r, s')"
    by (cases "handleRunProject h enginePath s rawArgs") auto
  from handleRunProject_cases[OF run] have "untracked_are_over s'"
    using inv untracked_kill_existing[OF inv] untracked_spawn[OF inv] by auto
  then show ?thesis using RunProject run by simp
next
  case (StdoutData p data)
  assume inv: "untracked_are_over s"
  show ?thesis
    unfolding StdoutData step.simps on_stdout_def
    using inv untracked_flag_update[OF inv] by simp
next
  case (StderrData p data)
  assume inv: "untracked_are_over s"
  show ?thesis
    unfolding StderrData step.simps on_stderr_def
    using inv untracked_flag_update[OF inv] by simp
next
  case (ExitEvent p)
  assume inv: "untracked_are_over s"
  show ?thesis
  proof (cases "p < length (children s)")
    case True
    let ?s1 = "s\<lparr>children := (children s)[p := (children s ! p)\<lparr>exited := True\<rparr>]\<rparr>"
    have "untracked_are_over ?s1" using untracked_flag_update[OF inv True] by simp
    then have "untracked_are_over (release p ?s1)"
      by (rule untracked_release) (use True in simp_all)
    then show ?thesis using True by (simp add: ExitEvent on_exit_def)
  next
    case False
    then show ?thesis using inv by (simp add: ExitEvent on_exit_def)
  qed
next
  case (ErrorEvent p)
  assume inv: "untracked_are_over s"
  show ?thesis
  proof (cases "p < length (children s)")
    case True
    let ?s1 = "s\<lparr>children := (children s)[p := (children s ! p)\<lparr>failed := True\<rparr>]\<rparr>"
    have "untracked_are_over ?s1" using untracked_flag_update[OF inv True] by simp
    then have "untracked_are_over (release p ?s1)"
      by (rule untracked_release) (use True in simp_all)
    then show ?thesis using True by (simp add: ErrorEvent on_error_def)
  next
    case False
    then show ?thesis using inv by (simp add: ErrorEvent on_error_def)
  qed
next
  case StopProject
  assume inv: "untracked_are_over s"
  show ?thesis
    using inv untracked_release_all[OF inv]
    by (simp add: StopProject handleStopProject_def split: option.splits)
next
  case Cleanup
  assume inv: "untracked_are_over s"
  show ?thesis using untracked_release_all[OF inv] by (simp add: Cleanup cleanup_def)
qed

lemma untracked_reachable: "untracked_are_over (run_events h initial_handlers history)"
proof -
  have "untracked_are_over s \<Longrightarrow> untracked_are_over (foldl (step h) s evs)" for s evs
    by (induction evs arbitrary: s) (simp_all add: untracked_step)
  moreover have "untracked_are_over initial_handlers"
    by (simp add: untracked_are_over_def initial_handlers_def)
  ultimately show ?thesis unfolding run_events_def by blast
qed

text \<open>
  C3: let a process \<open>p1\<close> be tracked when \<^verbatim>\<open>handleRunProject\<close> starts another one. Then
  \<open>p1\<close> is killed in a state where it is still the recorded one, and the state after
  the call is that state with the new child spawned and recorded: the new handle is
  tracked, it is not \<open>p1\<close>, and \<open>p1\<close> stays killed. After any further events of the
  child processes (their data, also late data of \<open>p1\<close>, their exit and error events),
  \<^verbatim>\<open>handleGetDebugOutput\<close> answers with the lines that the data events of the new child
  have carried, in order, and nothing else, or with the error of no active process once
  the new child has reported its end. In every state the handlers can reach from the
  start, there is the one slot for the tracked process, and every other child that was
  spawned has been killed or has reported its exit or its failure.
\<close>

theorem handleRunProject_replaces_active:
  assumes active: "activeProcess s = Some p1" and valid: "p1 < length (children s)"
    and started: "handleRunProject h enginePath s rawArgs = (Inr started_response, s')"
    and quiet: "\<forall>e \<in> set evs. child_event e"
  shows "killed (children (kill_existing s) ! p1) \<and> activeProcess (kill_existing s) = Some p1
    \<and> (\<exists>cmdArgs. s' = record_active (length (children s))
                         (spawn_child cmdArgs (kill_existing s)))
    \<and> activeProcess s' = Some (length (children s)) \<and> length (children s) \<noteq> p1
    \<and> killed (children s' ! p1)
    \<and> handleGetDebugOutput h (run_events h s' evs) =
         (if \<exists>e \<in> set evs. ends (length (children s)) e then no_active_process
          else debug_output h (concat (map (stdout_of (length (children s))) evs))
                 (concat (map (stderr_of (length (children s))) evs)))
    \<and> untracked_are_over (run_events h initial_handlers history)"
proof -
  let ?p2 = "length (children s)"
  obtain cmdArgs where s': "s' = record_active ?p2 (spawn_child cmdArgs (kill_existing s))"
    using handleRunProject_started[OF started] by blast
  have 1: "killed (children (kill_existing s) ! p1)"
    using kill_existing_killed[OF active valid] .
  have 2: "activeProcess (kill_existing s) = Some p1" using active by simp
  have ch: "children s' = children (kill_existing s) @
      [\<lparr>spawn_args = cmdArgs, stdout_lines = [], stderr_lines = [],
        killed = False, exited = False, failed = False\<rparr>]"
    and 3: "activeProcess s' = Some ?p2"
    unfolding s' by (simp_all add: record_active_def spawn_child_def)
  have 4: "?p2 \<noteq> p1" using valid by simp
  have 5: "killed (children s' ! p1)" using 1 valid by (simp add: ch nth_append)
  have len: "?p2 < length (children s')" by (simp add: ch)
  have fresh: "stdout_lines (children s' ! ?p2) = []" "stderr_lines (children s' ! ?p2) = []"
    by (simp_all add: ch nth_append)
  have 6: "handleGetDebugOutput h (run_events h s' evs) =
         (if \<exists>e \<in> set evs. ends ?p2 e then no_active_process
          else debug_output h (concat (map (stdout_of ?p2) evs))
                 (concat (map (stderr_of ?p2) evs)))"
    using debug_output_after_events[OF quiet 3 len fresh] .
  have 7: "untracked_are_over (run_events h initial_handlers history)"
    by (rule untracked_reachable)
  show ?thesis using 1 2 s' 3 4 5 6 7 by blast
qed

theorem handleRunProject_replaces_active_witness:
  "handleGetDebugOutput example_host
     (run_events example_host initial_handlers
        [RunProject (Some ''godot'') [(''project_path'', JStr ''/games/demo'')],
         StdoutData 0 ''first'',
         RunProject (Some ''godot'')
           [(''projectPath'', JStr ''/games/demo''), (''scene'', JStr ''main.tscn'')],
         StdoutData 0 ''late'',
         StdoutData 1 (''second'' @ [newline] @ ''line''),
         StderrData 1 ''warning'',
         ExitEvent 0])
   = debug_output example_host [''second'', ''line''] [''warning'']"
proof -
  let ?s = "run_events example_host initial_handlers
        [RunProject (Some ''godot'') [(''project_path'', JStr ''/games/demo'')],
         StdoutData 0 ''first'']"
  let ?raw = "[(''projectPath'', JStr ''/games/demo''), (''scene'', JStr ''main.tscn'')]"
  let ?evs = "[StdoutData 0 ''late'', StdoutData 1 (''second'' @ [newline] @ ''line''),
         StderrData 1 ''warning'', ExitEvent 0]"
  have s: "?s = \<lparr>children =
        [\<lparr>spawn_args = [JStr ''-d'', JStr ''--path'', JStr ''/games/demo''],
          stdout_lines = [''first''], stderr_lines = [],
          killed = False, exited = False, failed = False\<rparr>],
       activeProcess = Some 0\<rparr>"
    by code_simp
  have active: "activeProcess ?s = Some 0" and valid: "0 < length (children ?s)"
    unfolding s by simp_all
  obtain s' where started:
    "handleRunProject example_host (Some ''godot'') ?s ?raw = (Inr started_response, s')"
  proof -
    have "fst (handleRunProject example_host (Some ''godot'') ?s ?raw) = Inr started_response"
      unfolding s by code_simp
    then show ?thesis using that by (metis prod.collapse)
  qed
  have quiet: "\<forall>e \<in> set ?evs. child_event e" by simp
  have len: "length (children ?s) = 1" unfolding s by simp
  have out: "concat (map (stdout_of 1) ?evs) = [''second'', ''line'']"
    and err: "concat (map (stderr_of 1) ?evs) = [''warning'']"
    and alive: "\<not> (\<exists>e \<in> set ?evs. ends 1 e)"
    by (simp_all add: newline_def)
  have unfold: "run_events example_host initial_handlers
        [RunProject (Some ''godot'') [(''project_path'', JStr ''/games/demo'')],
         StdoutData 0 ''first'', RunProject (Some ''godot'') ?raw,
         StdoutData 0 ''late'', StdoutData 1 (''second'' @ [newline] @ ''line''),
         StderrData 1 ''warning'', ExitEvent 0]
      = run_events example_host s' ?evs"
    using started by (simp add: run_events_def)
  show ?thesis
    using handleRunProject_replaces_active[OF active valid started quiet] alive
    unfolding unfold len out err by simp
qed

end
